theory Spec2Isabelle
  imports Main "HOL-Library.Sublist" "HOL-Library.Multiset"
begin

section \<open>Strings\<close>

text \<open>
  A Python \<^verbatim>\<open>str\<close> is modelled as a \<^typ>\<open>string\<close> of ASCII text. The character
  classes and case conversions below are Python's \<^verbatim>\<open>str\<close> methods restricted to
  code points below 128: the letters are \<^verbatim>\<open>A-Z\<close> and \<^verbatim>\<open>a-z\<close>, the digits of
  \<^verbatim>\<open>\d\<close> are \<^verbatim>\<open>0-9\<close>, and the whitespace of \<^verbatim>\<open>strip\<close>, \<^verbatim>\<open>split\<close> and
  \<^verbatim>\<open>isspace\<close> is \<^verbatim>\<open>\t \n \v \f \r\<close>, the separators \<^verbatim>\<open>\x1c-\x1f\<close> and the space.
\<close>

definition ascii_uppercase :: string where
  "ascii_uppercase = ''ABCDEFGHIJKLMNOPQRSTUVWXYZ''"

definition ascii_lowercase :: string where
  "ascii_lowercase = ''abcdefghijklmnopqrstuvwxyz''"

definition digits :: string where
  "digits = ''0123456789''"

definition is_upper_char :: "char \<Rightarrow> bool" where
  "is_upper_char c = (c \<in> set ascii_uppercase)"

definition is_lower_char :: "char \<Rightarrow> bool" where
  "is_lower_char c = (c \<in> set ascii_lowercase)"

definition is_alpha_char :: "char \<Rightarrow> bool" where
  "is_alpha_char c = (is_upper_char c \<or> is_lower_char c)"

definition is_digit :: "char \<Rightarrow> bool" where
  "is_digit c = (c \<in> set digits)"

definition is_space :: "char \<Rightarrow> bool" where
  "is_space c = (let n = (of_char c :: nat) in (9 \<le> n \<and> n \<le> 13) \<or> (28 \<le> n \<and> n \<le> 32))"

definition lower_char :: "char \<Rightarrow> char" where
  "lower_char c = (case map_of (zip ascii_uppercase ascii_lowercase) c of Some d \<Rightarrow> d | None \<Rightarrow> c)"

definition upper_char :: "char \<Rightarrow> char" where
  "upper_char c = (case map_of (zip ascii_lowercase ascii_uppercase) c of Some d \<Rightarrow> d | None \<Rightarrow> c)"

text \<open>\<^verbatim>\<open>s.lower()\<close> and \<^verbatim>\<open>s.upper()\<close>.\<close>

definition str_lower :: "string \<Rightarrow> string" where
  "str_lower s = map lower_char s"

definition str_upper :: "string \<Rightarrow> string" where
  "str_upper s = map upper_char s"

text \<open>\<^verbatim>\<open>s.isupper()\<close>: at least one cased character, and no cased character is lowercase.\<close>

definition str_isupper :: "string \<Rightarrow> bool" where
  "str_isupper s = (list_ex is_upper_char s \<and> \<not> list_ex is_lower_char s)"

text \<open>\<^verbatim>\<open>s.isspace()\<close>: at least one character, and all of them whitespace.\<close>

definition str_isspace :: "string \<Rightarrow> bool" where
  "str_isspace s = (s \<noteq> [] \<and> list_all is_space s)"

text \<open>\<^verbatim>\<open>s.capitalize()\<close>: the first character upper-cased, the others lower-cased.\<close>

fun capitalize :: "string \<Rightarrow> string" where
  "capitalize [] = []"
| "capitalize (c # cs) = upper_char c # str_lower cs"

text \<open>\<^verbatim>\<open>s.strip()\<close> removes the whitespace at both ends.\<close>

definition strip :: "string \<Rightarrow> string" where
  "strip s = rev (dropWhile is_space (rev (dropWhile is_space s)))"

text \<open>
  \<^verbatim>\<open>s.split()\<close> cuts at runs of whitespace and returns the non-empty pieces. The scan
  carries the piece read so far in \<open>cur\<close>.
\<close>

fun split_scan :: "string \<Rightarrow> string \<Rightarrow> string list" where
  "split_scan cur [] = (if cur = [] then [] else [cur])"
| "split_scan cur (c # cs) =
     (if is_space c then (if cur = [] then split_scan [] cs else cur # split_scan [] cs)
      else split_scan (cur @ [c]) cs)"

definition str_split :: "string \<Rightarrow> string list" where
  "str_split s = split_scan [] s"

text \<open>\<^verbatim>\<open>int(s)\<close> on a string of decimal digits, and \<^verbatim>\<open>str(i)\<close> on a natural number.\<close>

definition digit_value :: "char \<Rightarrow> nat" where
  "digit_value c = (of_char c :: nat) - 48"

definition int_of_digits :: "string \<Rightarrow> nat" where
  "int_of_digits s = foldl (\<lambda>a c. 10 * a + digit_value c) 0 s"

fun string_of_nat :: "nat \<Rightarrow> string" where
  "string_of_nat n =
     (if n < 10 then [digits ! n] else string_of_nat (n div 10) @ [digits ! (n mod 10)])"

declare string_of_nat.simps [simp del]

section \<open>The pre-compiled regular expressions\<close>

text \<open>
  The alternation \<^verbatim>\<open>(first|middle|last)\<close> tried at the start of \<open>s\<close>, alternatives in
  order: the keyword matched and the text after it.
\<close>

definition keyword_alts :: "string list" where
  "keyword_alts = [''first'', ''middle'', ''last'']"

definition match_keyword :: "string \<Rightarrow> (string \<times> string) option" where
  "match_keyword s =
     (case find (\<lambda>k. prefix k s) keyword_alts of
        None \<Rightarrow> None
      | Some k \<Rightarrow> Some (k, drop (length k) s))"

text \<open>
  \<^verbatim>\<open>\[(\d+)\]\<close> at the start of \<open>s\<close>: the digits and the text after the closing
  bracket. The greedy \<^verbatim>\<open>\d+\<close> takes the whole run of digits; a shorter run is
  followed by a digit, never by \<^verbatim>\<open>]\<close>, so backtracking into it cannot succeed.
\<close>

definition match_brackets :: "string \<Rightarrow> (string \<times> string) option" where
  "match_brackets s =
     (case s of
        [] \<Rightarrow> None
      | c # r \<Rightarrow>
          if c = CHR ''['' \<and> takeWhile is_digit r \<noteq> [] then
            (case dropWhile is_digit r of
               [] \<Rightarrow> None
             | d # r' \<Rightarrow> if d = CHR '']'' then Some (takeWhile is_digit r, r') else None)
          else None)"

text \<open>
  \<^verbatim>\<open>(\d+)$\<close> at the start of \<open>s\<close>. Without the MULTILINE flag \<^verbatim>\<open>$\<close> matches at the
  end of the string and just before a newline that ends the string.
\<close>

definition match_digits_end :: "string \<Rightarrow> string option" where
  "match_digits_end s =
     (let ds = takeWhile is_digit s; t = dropWhile is_digit s
      in if ds \<noteq> [] \<and> (t = [] \<or> t = [CHR 0x0A]) then Some ds else None)"

text \<open>
  \<^verbatim>\<open>re_numeric.match(s)\<close> for \<^verbatim>\<open>(first|middle|last)(\[(\d+)\])?(\d+)$\<close>: groups 1 and
  4 of the match. The optional group is greedy: the engine tries it first and, when the
  rest fails after it, tries again without it.
\<close>

definition re_numeric_match :: "string \<Rightarrow> (string \<times> string) option" where
  "re_numeric_match s =
     (case match_keyword s of
        None \<Rightarrow> None
      | Some (kw, r) \<Rightarrow>
          (case (case match_brackets r of
                   None \<Rightarrow> None
                 | Some (bd, r') \<Rightarrow> match_digits_end r') of
             Some num \<Rightarrow> Some (kw, num)
           | None \<Rightarrow>
               (case match_digits_end r of
                  None \<Rightarrow> None
                | Some num \<Rightarrow> Some (kw, num))))"

text \<open>\<^verbatim>\<open>(first|middle|last)\[(\d+)\]\<close> at the start of \<open>s\<close>: groups 1 and 2 and the rest.\<close>

definition match_bracket_at :: "string \<Rightarrow> (string \<times> string \<times> string) option" where
  "match_bracket_at s =
     (case match_keyword s of
        None \<Rightarrow> None
      | Some (kw, r) \<Rightarrow>
          (case match_brackets r of
             None \<Rightarrow> None
           | Some (len, r') \<Rightarrow> Some (kw, len, r')))"

lemma match_keyword_shorter:
  "match_keyword s = Some (kw, r) \<Longrightarrow> length r < length s"
  by (auto simp: match_keyword_def keyword_alts_def prefix_def split: if_splits)

lemma match_brackets_shorter:
  "match_brackets s = Some (ds, r) \<Longrightarrow> length r < length s"
proof -
  assume a: "match_brackets s = Some (ds, r)"
  then obtain c t where s: "s = c # t" and d: "dropWhile is_digit t = CHR '']'' # r"
    by (auto simp: match_brackets_def split: list.splits if_splits)
  have "length (dropWhile is_digit t) \<le> length t"
    by (rule length_dropWhile_le)
  with s d show ?thesis by simp
qed

lemma match_bracket_at_shorter:
  "match_bracket_at s = Some (kw, len, r) \<Longrightarrow> length r < length s"
  by (auto simp: match_bracket_at_def split: option.splits
      dest!: match_keyword_shorter match_brackets_shorter)

text \<open>
  \<^verbatim>\<open>re_bracket.sub(repl, s)\<close>: the matches are found from left to right and do not
  overlap; each is replaced by \<open>repl\<close> of its groups, the text between them is copied.
\<close>

function re_bracket_sub :: "(string \<Rightarrow> string \<Rightarrow> string) \<Rightarrow> string \<Rightarrow> string" where
  "re_bracket_sub repl [] = []"
| "re_bracket_sub repl (c # cs) =
     (case match_bracket_at (c # cs) of
        Some (kw, len, r) \<Rightarrow> repl kw len @ re_bracket_sub repl r
      | None \<Rightarrow> c # re_bracket_sub repl cs)"
  by pat_completeness auto
termination
  by (relation "measure (\<lambda>(repl, s). length s)")
    (auto dest: match_bracket_at_shorter)

text \<open>
  \<^verbatim>\<open>re_keywords.split(s)\<close> for the one-group pattern \<^verbatim>\<open>(first|middle|last)\<close>: the
  text before the first match, the keyword, the text up to the next match, and so on;
  the list ends with the text after the last match.
\<close>

fun cons_head :: "char \<Rightarrow> string list \<Rightarrow> string list" where
  "cons_head c [] = [[c]]"
| "cons_head c (p # ps) = (c # p) # ps"

function re_keywords_split :: "string \<Rightarrow> string list" where
  "re_keywords_split [] = [[]]"
| "re_keywords_split (c # cs) =
     (case match_keyword (c # cs) of
        Some (kw, r) \<Rightarrow> [] # kw # re_keywords_split r
      | None \<Rightarrow> cons_head c (re_keywords_split cs))"
  by pat_completeness auto
termination
  by (relation "measure length") (auto dest: match_keyword_shorter)

text \<open>\<^verbatim>\<open>re_separators.split(s)\<close> for \<^verbatim>\<open>([._-])\<close>: the same, with one-character matches.\<close>

definition is_separator :: "char \<Rightarrow> bool" where
  "is_separator c = (c \<in> set ''._-'')"

fun re_separators_split :: "string \<Rightarrow> string list" where
  "re_separators_split [] = [[]]"
| "re_separators_split (c # cs) =
     (if is_separator c then [] # [c] # re_separators_split cs
      else cons_head c (re_separators_split cs))"

section \<open>UsernameGenerator\<close>

datatype py_error = AttributeError | KeyError | ValueError

record generator =
  case_sensitive :: bool
  formats :: "string list"

definition DEFAULT_FORMATS :: "string list" where
  "DEFAULT_FORMATS =
     [''first'', ''last'', ''firstlast'', ''lastfirst'',
      ''first.last'', ''last.first'', ''first-last'', ''last-first'',
      ''first_last'', ''last_first'', ''first[1].last'', ''last[1].first'',
      ''firstlast[1]'', ''first[1]last'', ''last[1]first'', ''lastfirst[1]'',
      ''first[1]last[1]'', ''last[1]first[1]'']"

text \<open>
  The constructor: \<^verbatim>\<open>formats or self.DEFAULT_FORMATS\<close> takes the defaults for
  \<^verbatim>\<open>None\<close> and for the empty list.
\<close>

definition UsernameGenerator :: "bool \<Rightarrow> string list option \<Rightarrow> generator" where
  "UsernameGenerator cs fmts =
     \<lparr>case_sensitive = cs,
      formats = (case fmts of None \<Rightarrow> DEFAULT_FORMATS
                 | Some fs \<Rightarrow> if fs = [] then DEFAULT_FORMATS else fs)\<rparr>"

text \<open>\<^verbatim>\<open>d.get(k, '')\<close> on a dictionary of strings.\<close>

definition dict_get :: "(string \<rightharpoonup> string) \<Rightarrow> string \<Rightarrow> string" where
  "dict_get d k = (case d k of None \<Rightarrow> [] | Some v \<Rightarrow> v)"

definition parse_name :: "string \<Rightarrow> (string \<rightharpoonup> string)" where
  "parse_name name =
     (let parts = str_split (strip name)
      in [''first'' \<mapsto> (if length parts > 0 then parts ! 0 else []),
          ''middle'' \<mapsto> (if length parts > 2 then parts ! 1 else []),
          ''last'' \<mapsto> (if length parts > 1 then last parts else [])])"

definition replace_with_length :: "(string \<rightharpoonup> string) \<Rightarrow> string \<Rightarrow> string \<Rightarrow> string" where
  "replace_with_length name_parts part len =
     (let v = dict_get name_parts part
      in if v \<noteq> [] then take (int_of_digits len) v else [])"

definition case_handling :: "bool \<Rightarrow> string \<Rightarrow> string \<Rightarrow> string" where
  "case_handling cs format_str result =
     (if result \<noteq> [] \<and> \<not> cs then str_lower result
      else if result \<noteq> [] then
        (case format_str of
           [] \<Rightarrow> result
         | f # fs \<Rightarrow>
             if is_upper_char f \<and> length format_str > 1 then
               (if str_isupper format_str then str_upper result
                else concat (map (\<lambda>p. case p of [] \<Rightarrow> p
                                        | q # qs \<Rightarrow> if is_alpha_char q then capitalize p else p)
                              (re_separators_split result)))
             else result)
      else result)"

definition process_format :: "bool \<Rightarrow> string \<Rightarrow> (string \<rightharpoonup> string) \<Rightarrow> string option" where
  "process_format cs format_str name_parts =
     (let result = re_bracket_sub (replace_with_length name_parts) format_str;
          replacements = [''first'' \<mapsto> dict_get name_parts ''first'',
                          ''middle'' \<mapsto> dict_get name_parts ''middle'',
                          ''last'' \<mapsto> dict_get name_parts ''last''];
          parts_arr = re_keywords_split result;
          final_parts = map (\<lambda>part. case replacements part of Some v \<Rightarrow> v | None \<Rightarrow> part)
                          parts_arr;
          result = case_handling cs format_str (concat final_parts)
      in if result \<noteq> [] \<and> \<not> str_isspace result then Some result else None)"

definition apply_format :: "bool \<Rightarrow> string \<Rightarrow> (string \<rightharpoonup> string) \<Rightarrow> string list" where
  "apply_format cs format_str name_parts =
     (case re_numeric_match format_str of
        Some (base_format, num) \<Rightarrow>
          (case process_format cs base_format name_parts of
             Some base_username \<Rightarrow>
               map (\<lambda>i. base_username @ string_of_nat i) [0 ..< int_of_digits num + 1]
           | None \<Rightarrow> [])
      | None \<Rightarrow>
          (case process_format cs format_str name_parts of
             Some username \<Rightarrow> [username]
           | None \<Rightarrow> []))"

text \<open>
  \<^verbatim>\<open>name_parts['first']\<close> is a subscript: it raises \<^verbatim>\<open>KeyError\<close> on a dictionary
  without the key.
\<close>

definition generate_from_name :: "generator \<Rightarrow> string \<Rightarrow> py_error + string list" where
  "generate_from_name gen name0 =
     (let name = strip name0
      in if name = [] then Inr []
         else let name_parts = parse_name name
              in (case name_parts ''first'' of
                    None \<Rightarrow> Inl KeyError
                  | Some f \<Rightarrow>
                      if f = [] then Inr []
                      else Inr (concat (map (\<lambda>format_pattern.
                                   apply_format (case_sensitive gen) format_pattern name_parts)
                                 (formats gen)))))"

text \<open>
  \<^verbatim>\<open>process_single_task\<close> receives the triple \<^verbatim>\<open>(name, fn, ln)\<close>, each component a
  string or \<^verbatim>\<open>None\<close>; \<^verbatim>\<open>fn and ln\<close> holds when both are non-empty strings. When the
  chosen \<^verbatim>\<open>full_name\<close> is \<^verbatim>\<open>None\<close>, \<^verbatim>\<open>name.strip()\<close> in \<^verbatim>\<open>generate_from_name\<close> raises
  \<^verbatim>\<open>AttributeError\<close>.
\<close>

definition process_single_task ::
  "generator \<Rightarrow> string option \<times> string option \<times> string option \<Rightarrow> py_error + string list" where
  "process_single_task gen args =
     (case args of (name, fn, ln) \<Rightarrow>
        (let full_name = (case (fn, ln) of
                            (Some f, Some l) \<Rightarrow>
                              if f \<noteq> [] \<and> l \<noteq> [] then Some (f @ '' '' @ l) else name
                          | _ \<Rightarrow> name)
         in case full_name of
              None \<Rightarrow> Inl AttributeError
            | Some s \<Rightarrow> generate_from_name gen s))"

section \<open>The pipeline\<close>

text \<open>
  A work item is a raw name or a pair of a first and a last name. \<^verbatim>\<open>prepare_args\<close> turns
  it into the triple \<^verbatim>\<open>(name, fn, ln)\<close>.
\<close>

datatype work_item = RawName string | FirstLast string string

definition prepare_args :: "work_item \<Rightarrow> string option \<times> string option \<times> string option" where
  "prepare_args item =
     (case item of
        FirstLast fn ln \<Rightarrow> (None, Some fn, Some ln)
      | RawName name \<Rightarrow> (Some name, None, None))"

text \<open>\<^verbatim>\<open>sep.join(xs)\<close>.\<close>

fun str_join :: "string \<Rightarrow> string list \<Rightarrow> string" where
  "str_join sep [] = []"
| "str_join sep [x] = x"
| "str_join sep (x # y # ys) = x @ sep @ str_join sep (y # ys)"

text \<open>
  An open output file is the list of the strings passed to its \<^verbatim>\<open>write\<close> so far, one
  entry for each call; \<^verbatim>\<open>None\<close> stands for no file. \<^verbatim>\<open>batch_write\<close> does nothing on
  an empty buffer or without a file, and otherwise makes one call of \<^verbatim>\<open>write\<close>.
\<close>

definition batch_write :: "string list option \<Rightarrow> string list \<Rightarrow> string list option" where
  "batch_write file_handle buffer =
     (case file_handle of
        None \<Rightarrow> None
      | Some written \<Rightarrow>
          if buffer = [] then Some written
          else Some (written @ [str_join [CHR 0x0A] buffer @ [CHR 0x0A]]))"

definition WRITE_BUFFER_SIZE :: nat where
  "WRITE_BUFFER_SIZE = 1000"

text \<open>
  The state of a run: the local variables \<^verbatim>\<open>output_buffer\<close>, \<^verbatim>\<open>total_generated\<close> and
  \<^verbatim>\<open>iterator\<close> (the items the source has not yet handed out), the counter \<^verbatim>\<open>n\<close> of the
  progress bar, which \<^verbatim>\<open>update(1)\<close> increments, and what the run has sent to the output
  file, to standard output (one entry for each \<^verbatim>\<open>print\<close>) and to standard error (one
  entry for each error message, holding the item and the exception).
\<close>

record run_state =
  output_buffer :: "string list"
  total_generated :: nat
  iterator :: "work_item list"
  pbar_n :: nat
  output_file :: "string list option"
  stdout :: "string list"
  stderr :: "(work_item \<times> py_error) list"

text \<open>
  The body of the loop over \<^verbatim>\<open>as_completed(futures)\<close>, for the future of \<open>item\<close>. The
  result of the future is the value or the exception of
  \<^verbatim>\<open>generator.process_single_task(prepare_args(item))\<close>. Writing to the file and to the
  standard streams is taken to succeed.
\<close>

definition collect :: "generator \<Rightarrow> run_state \<Rightarrow> work_item \<Rightarrow> run_state" where
  "collect gen st item =
     (let st' =
        (case process_single_task gen (prepare_args item) of
           Inr usernames \<Rightarrow>
             (let st1 = st\<lparr>total_generated := total_generated st + length usernames\<rparr>
              in case output_file st1 of
                   Some written \<Rightarrow>
                     (let st2 = st1\<lparr>output_buffer := output_buffer st1 @ usernames\<rparr>
                      in if length (output_buffer st2) \<ge> WRITE_BUFFER_SIZE
                         then st2\<lparr>output_file := batch_write (output_file st2) (output_buffer st2),
                                  output_buffer := []\<rparr>
                         else st2)
                 | None \<Rightarrow> st1\<lparr>stdout := stdout st1 @ usernames\<rparr>)
         | Inl e \<Rightarrow> st\<lparr>stderr := stderr st @ [(item, e)]\<rparr>)
      in st'\<lparr>pbar_n := pbar_n st' + 1\<rparr>)"

lemma iterator_collect: "iterator (collect gen st item) = iterator st"
  by (simp add: collect_def Let_def split: sum.splits option.splits)

lemma iterator_foldl_collect: "iterator (foldl (collect gen) st items) = iterator st"
  by (induction items arbitrary: st) (simp_all add: iterator_collect)

text \<open>
  The \<^verbatim>\<open>while True\<close> loop. \<^verbatim>\<open>islice\<close> takes the next \<open>chunk_size\<close> items from the
  iterator; the loop ends when it gets none. The futures of a chunk complete in an order
  that the scheduler decides: \<open>order chunk\<close> lists the chunk's items in that order. The
  next chunk is taken when the loop over \<^verbatim>\<open>as_completed\<close> has ended.
\<close>

function run_loop ::
  "generator \<Rightarrow> (work_item list \<Rightarrow> work_item list) \<Rightarrow> nat \<Rightarrow> run_state \<Rightarrow> run_state" where
  "run_loop gen order chunk_size st =
     (let chunk = take chunk_size (iterator st)
      in if chunk = [] then st
         else run_loop gen order chunk_size
                (foldl (collect gen) (st\<lparr>iterator := drop chunk_size (iterator st)\<rparr>)
                   (order chunk)))"
  by pat_completeness auto
termination
  by (relation "measure (\<lambda>(gen, order, chunk_size, st). length (iterator st))")
    (auto simp: iterator_foldl_collect)

declare run_loop.simps [simp del]

definition initial_state :: "work_item list \<Rightarrow> string list option \<Rightarrow> run_state" where
  "initial_state name_iterator out =
     \<lparr>output_buffer = [], total_generated = 0, iterator = name_iterator,
      pbar_n = 0, output_file = out, stdout = [], stderr = []\<rparr>"

text \<open>
  \<^verbatim>\<open>run_processing\<close>. \<^verbatim>\<open>ThreadPoolExecutor(max_workers=workers)\<close> raises
  \<^verbatim>\<open>ValueError\<close> unless \<open>workers\<close> is positive. The function returns
  \<^verbatim>\<open>total_generated\<close>; the model returns the final state, which holds it. The argument
  \<^verbatim>\<open>total_count\<close> only sets the length of the progress bar and is left out. The source
  is a finite list of items.
\<close>

definition run_processing ::
  "generator \<Rightarrow> (work_item list \<Rightarrow> work_item list) \<Rightarrow> work_item list \<Rightarrow> string list option
     \<Rightarrow> int \<Rightarrow> py_error + run_state" where
  "run_processing gen order name_iterator out workers =
     (let CHUNK_SIZE = workers * 200
      in if workers \<le> 0 then Inl ValueError
         else
           (let st = run_loop gen order (nat CHUNK_SIZE) (initial_state name_iterator out)
            in if output_file st \<noteq> None \<and> output_buffer st \<noteq> []
               then Inr (st\<lparr>output_file := batch_write (output_file st) (output_buffer st)\<rparr>)
               else Inr st))"

text \<open>
  The chunks that \<^verbatim>\<open>islice\<close> cuts from a source, and the order in which the items of a
  whole run are collected: chunk after chunk, each chunk in its order of completion.
\<close>

function chunks :: "nat \<Rightarrow> 'a list \<Rightarrow> 'a list list" where
  "chunks n xs =
     (let chunk = take n xs
      in if chunk = [] then [] else chunk # chunks n (drop n xs))"
  by pat_completeness auto
termination
  by (relation "measure (\<lambda>(n, xs). length xs)") auto

declare chunks.simps [simp del]

definition completion_sequence ::
  "(work_item list \<Rightarrow> work_item list) \<Rightarrow> nat \<Rightarrow> work_item list \<Rightarrow> work_item list" where
  "completion_sequence order n src = concat (map order (chunks n src))"

text \<open>What the future of an item contributes: its usernames, or its error event.\<close>

definition usernames_of :: "generator \<Rightarrow> work_item \<Rightarrow> string list" where
  "usernames_of gen item =
     (case process_single_task gen (prepare_args item) of Inr usernames \<Rightarrow> usernames | Inl e \<Rightarrow> [])"

definition error_of :: "generator \<Rightarrow> work_item \<Rightarrow> (work_item \<times> py_error) list" where
  "error_of gen item =
     (case process_single_task gen (prepare_args item) of Inr usernames \<Rightarrow> [] | Inl e \<Rightarrow> [(item, e)])"

text \<open>The text of a file that holds the given strings, one on each line.\<close>

definition file_lines :: "string list \<Rightarrow> string" where
  "file_lines us = concat (map (\<lambda>u. u @ [CHR 0x0A]) us)"

text \<open>
  The same run, observed: the states of the controlling thread after each step, which
  is either taking a chunk from the iterator or collecting one completed future. The
  items taken from the source and not yet collected are those that \<^verbatim>\<open>update(1)\<close> has
  not yet counted.
\<close>

fun collect_trace :: "generator \<Rightarrow> run_state \<Rightarrow> work_item list \<Rightarrow> run_state list" where
  "collect_trace gen st [] = []"
| "collect_trace gen st (item # items) =
     collect gen st item # collect_trace gen (collect gen st item) items"

lemma last_collect_trace:
  "last (st # collect_trace gen st items) = foldl (collect gen) st items"
  by (induction items arbitrary: st) simp_all

function run_loop_trace ::
  "generator \<Rightarrow> (work_item list \<Rightarrow> work_item list) \<Rightarrow> nat \<Rightarrow> run_state \<Rightarrow> run_state list" where
  "run_loop_trace gen order chunk_size st =
     (let chunk = take chunk_size (iterator st)
      in if chunk = [] then []
         else (let st1 = st\<lparr>iterator := drop chunk_size (iterator st)\<rparr>;
                   tr = st1 # collect_trace gen st1 (order chunk)
               in tr @ run_loop_trace gen order chunk_size (last tr)))"
  by pat_completeness auto
termination
  by (relation "measure (\<lambda>(gen, order, chunk_size, st). length (iterator st))")
    (auto simp: last_collect_trace iterator_foldl_collect simp del: last.simps)

declare run_loop_trace.simps [simp del]

definition run_processing_trace ::
  "generator \<Rightarrow> (work_item list \<Rightarrow> work_item list) \<Rightarrow> work_item list \<Rightarrow> string list option
     \<Rightarrow> int \<Rightarrow> run_state list" where
  "run_processing_trace gen order name_iterator out workers =
     (if workers \<le> 0 then []
      else initial_state name_iterator out
             # run_loop_trace gen order (nat (workers * 200)) (initial_state name_iterator out))"

definition in_flight :: "work_item list \<Rightarrow> run_state \<Rightarrow> nat" where
  "in_flight src st = (length src - length (iterator st)) - pbar_n st"

section \<open>The sources that \<^verbatim>\<open>main\<close> builds\<close>

text \<open>
  \<^verbatim>\<open>load_names\<close> reads the lines of a file, strips each one and drops those that are
  blank. \<^verbatim>\<open>main\<close> passes to \<^verbatim>\<open>run_processing\<close> either the names of one file or the
  product of the names of two files.
\<close>

definition load_names :: "string list \<Rightarrow> string list" where
  "load_names input_lines = map strip (filter (\<lambda>line. strip line \<noteq> []) input_lines)"

definition single_source :: "string list \<Rightarrow> work_item list" where
  "single_source input_lines = map RawName (load_names input_lines)"

definition combination_source :: "string list \<Rightarrow> string list \<Rightarrow> work_item list" where
  "combination_source first_lines last_lines =
     map (\<lambda>(fn, ln). FirstLast fn ln)
       (List.product (load_names first_lines) (load_names last_lines))"

section \<open>Properties of the string functions and of the regular expressions\<close>

lemma dropWhile_snoc_keep: "\<not> P x \<Longrightarrow> \<exists>u. dropWhile P (ys @ [x]) = u @ [x]"
  by (induction ys) auto

lemma strip_no_leading_space: "dropWhile is_space (strip s) = strip s"
proof (cases "dropWhile is_space s")
  case Nil
  show ?thesis unfolding strip_def Nil by simp
next
  case (Cons x t)
  have nx: "\<not> is_space x"
    using Cons hd_dropWhile [of is_space s] by (metis list.distinct(1) list.sel(1))
  obtain v where "dropWhile is_space (rev t @ [x]) = v @ [x]"
    using dropWhile_snoc_keep [of is_space x "rev t"] nx by blast
  then have "rev (dropWhile is_space (rev (x # t))) = x # rev v"
    by simp
  with Cons nx show ?thesis by (simp add: strip_def)
qed

lemma strip_idem: "strip (strip s) = strip s"
proof -
  have "strip (strip s) = rev (dropWhile is_space (rev (strip s)))"
    by (simp add: strip_def [of "strip s"] strip_no_leading_space)
  also have "\<dots> = strip s"
    by (simp add: strip_def dropWhile_idem)
  finally show ?thesis .
qed

lemma strip_all_space: "list_all is_space s \<Longrightarrow> strip s = []"
proof -
  assume "list_all is_space s"
  then have d: "dropWhile is_space s = []" by (simp add: list_all_iff)
  show ?thesis unfolding strip_def d by simp
qed

lemma parse_name_first: "parse_name name ''first'' = Some (dict_get (parse_name name) ''first'')"
  by (simp add: parse_name_def dict_get_def Let_def)

lemma parse_name_strip: "parse_name (strip name) = parse_name name"
  by (simp add: parse_name_def strip_idem)

lemma match_keyword_alt:
  "kw \<in> set keyword_alts \<Longrightarrow> match_keyword (kw @ r) = Some (kw, r)"
  by (auto simp: match_keyword_def keyword_alts_def)

lemma not_digit_brackets: "\<not> is_digit CHR ''[''" "\<not> is_digit CHR '']''"
  by (simp_all add: is_digit_def digits_def)

lemma takeWhile_all_digits: "list_all is_digit ds \<Longrightarrow> takeWhile is_digit ds = ds"
  by (simp add: list_all_iff)

lemma dropWhile_all_digits: "list_all is_digit ds \<Longrightarrow> dropWhile is_digit ds = []"
  by (simp add: list_all_iff)

lemma match_digits_end_digits:
  "ds \<noteq> [] \<Longrightarrow> list_all is_digit ds \<Longrightarrow> match_digits_end ds = Some ds"
  by (simp add: match_digits_end_def takeWhile_all_digits dropWhile_all_digits)

lemma match_brackets_digits:
  "ds \<noteq> [] \<Longrightarrow> list_all is_digit ds \<Longrightarrow> match_brackets ds = None"
  by (cases ds) (auto simp: match_brackets_def not_digit_brackets)

lemma match_brackets_bracketed:
  assumes "bd \<noteq> []" "list_all is_digit bd"
  shows "match_brackets (''['' @ bd @ '']'' @ r) = Some (bd, r)"
proof -
  have t: "takeWhile is_digit (bd @ CHR '']'' # r) = bd"
    using assms by (simp add: takeWhile_tail not_digit_brackets takeWhile_all_digits)
  have d: "dropWhile is_digit (bd @ CHR '']'' # r) = CHR '']'' # r"
    using assms by (simp add: dropWhile_append2 list_all_iff not_digit_brackets)
  show ?thesis
    using assms by (simp add: match_brackets_def t d)
qed

lemma re_numeric_match_suffix:
  assumes "kw \<in> set keyword_alts"
    and "br = [] \<or> (\<exists>bd. bd \<noteq> [] \<and> list_all is_digit bd \<and> br = ''['' @ bd @ '']'')"
    and "ds \<noteq> []" "list_all is_digit ds"
  shows "re_numeric_match (kw @ br @ ds) = Some (kw, ds)"
proof -
  from assms(2) show ?thesis
  proof
    assume "br = []"
    then show ?thesis
      using assms(1,3,4)
      by (simp add: re_numeric_match_def match_keyword_alt match_brackets_digits
          match_digits_end_digits)
  next
    assume "\<exists>bd. bd \<noteq> [] \<and> list_all is_digit bd \<and> br = ''['' @ bd @ '']''"
    then obtain bd where bd: "bd \<noteq> []" "list_all is_digit bd" "br = ''['' @ bd @ '']''"
      by blast
    have "match_brackets (br @ ds) = Some (bd, ds)"
      using match_brackets_bracketed [OF bd(1,2), of ds] bd(3) by simp
    then show ?thesis
      using assms(1,3,4)
      by (simp add: re_numeric_match_def match_keyword_alt match_digits_end_digits)
  qed
qed

lemma keyword_passes:
  assumes "kw \<in> set keyword_alts"
  shows "re_bracket_sub repl kw = kw" and "re_keywords_split kw = [[], kw, []]"
  using assms
  by (auto simp: keyword_alts_def match_bracket_at_def match_keyword_def match_brackets_def)

lemma case_handling_keyword:
  assumes "kw \<in> set keyword_alts"
  shows "case_handling cs kw v = (if cs then v else str_lower v)"
  using assms
  by (auto simp: keyword_alts_def case_handling_def is_upper_char_def ascii_uppercase_def
      str_lower_def)

lemma process_format_keyword:
  assumes "kw \<in> set keyword_alts"
  shows "process_format cs kw name_parts =
     (let base = (if cs then dict_get name_parts kw else str_lower (dict_get name_parts kw))
      in if base \<noteq> [] \<and> \<not> str_isspace base then Some base else None)"
proof -
  consider "kw = ''first''" | "kw = ''middle''" | "kw = ''last''"
    using assms by (auto simp: keyword_alts_def)
  then show ?thesis
  proof cases
    case 1
    have k: "kw \<in> set keyword_alts" by (simp add: 1 keyword_alts_def)
    show ?thesis
      unfolding process_format_def keyword_passes [OF k] case_handling_keyword [OF k] Let_def
      by (simp add: 1)
  next
    case 2
    have k: "kw \<in> set keyword_alts" by (simp add: 2 keyword_alts_def)
    show ?thesis
      unfolding process_format_def keyword_passes [OF k] case_handling_keyword [OF k] Let_def
      by (simp add: 2)
  next
    case 3
    have k: "kw \<in> set keyword_alts" by (simp add: 3 keyword_alts_def)
    show ?thesis
      unfolding process_format_def keyword_passes [OF k] case_handling_keyword [OF k] Let_def
      by (simp add: 3)
  qed
qed

lemma is_space_lower_char: "is_space (lower_char c) = is_space c"
proof (cases "c \<in> set ascii_uppercase")
  case True
  then show ?thesis
    by (auto simp: ascii_uppercase_def ascii_lowercase_def lower_char_def is_space_def)
next
  case False
  then have "map_of (zip ascii_uppercase ascii_lowercase) c = None"
    by (simp add: map_of_eq_None_iff ascii_uppercase_def ascii_lowercase_def)
  then show ?thesis by (simp add: lower_char_def)
qed

lemma str_isspace_lower: "str_isspace (str_lower v) = str_isspace v"
  by (simp add: str_isspace_def str_lower_def list_all_iff is_space_lower_char)

lemma split_scan_pieces:
  "\<forall>c \<in> set cur. \<not> is_space c \<Longrightarrow> p \<in> set (split_scan cur s)
   \<Longrightarrow> p \<noteq> [] \<and> (\<forall>c \<in> set p. \<not> is_space c)"
proof (induction s arbitrary: cur)
  case Nil
  then show ?case by (cases "cur = []") auto
next
  case (Cons c cs)
  show ?case
  proof (cases "is_space c")
    case True
    show ?thesis
    proof (cases "cur = []")
      case e: True
      with True Cons.prems(2) have "p \<in> set (split_scan [] cs)" by simp
      then show ?thesis using Cons.IH [of "[]"] by simp
    next
      case ne: False
      with True Cons.prems(2) have "p = cur \<or> p \<in> set (split_scan [] cs)" by simp
      then show ?thesis using Cons.IH [of "[]"] Cons.prems(1) ne by auto
    qed
  next
    case False
    with Cons.prems(2) have "p \<in> set (split_scan (cur @ [c]) cs)" by simp
    moreover have "\<forall>d \<in> set (cur @ [c]). \<not> is_space d"
      using False Cons.prems(1) by simp
    ultimately show ?thesis using Cons.IH [of "cur @ [c]"] by blast
  qed
qed

lemma parse_name_no_space: "\<not> str_isspace (dict_get (parse_name name) kw)"
proof -
  let ?parts = "str_split (strip name)"
  have piece: "\<not> str_isspace p" if "p \<in> set ?parts" for p
    using split_scan_pieces [of "[]" p "strip name"] that
    by (cases p) (auto simp: str_split_def str_isspace_def)
  have e: "\<not> str_isspace []" by (simp add: str_isspace_def)
  have n0: "?parts ! 0 \<in> set ?parts" if "length ?parts > 0" using that by simp
  have n1: "?parts ! 1 \<in> set ?parts" if "length ?parts > 2" using that by simp
  have nl: "last ?parts \<in> set ?parts" if "length ?parts > 1"
  proof -
    from that have "?parts \<noteq> []" by auto
    then show ?thesis by (rule last_in_set)
  qed
  show ?thesis
    using piece e n0 n1 nl
    by (auto simp: parse_name_def dict_get_def Let_def)
qed

text \<open>
  Text without the letters \<^verbatim>\<open>f\<close>, \<^verbatim>\<open>m\<close> and \<^verbatim>\<open>l\<close> holds no start of a keyword: both
  passes copy it.
\<close>

lemma load_names_nonempty: "x \<in> set (load_names ls) \<Longrightarrow> x \<noteq> []"
  by (auto simp: load_names_def)

lemma match_keyword_other_start:
  "c \<notin> set ''fml'' \<Longrightarrow> match_keyword (c # r) = None"
  by (auto simp: match_keyword_def keyword_alts_def)

lemma re_bracket_sub_literal:
  "\<forall>c \<in> set pre. c \<notin> set ''fml'' \<Longrightarrow> re_bracket_sub repl (pre @ s) = pre @ re_bracket_sub repl s"
  by (induction pre) (simp_all add: match_bracket_at_def match_keyword_other_start)

lemma re_keywords_split_literal:
  "\<forall>c \<in> set pre. c \<notin> set ''fml'' \<Longrightarrow> kw \<in> set keyword_alts
   \<Longrightarrow> re_keywords_split (pre @ kw) = [pre, kw, []]"
proof (induction pre)
  case Nil
  then show ?case by (simp add: keyword_passes)
next
  case (Cons c pre)
  then have "match_keyword (c # pre @ kw) = None"
    by (simp add: match_keyword_other_start)
  with Cons show ?case by simp
qed

lemma re_bracket_sub_keyword_bracket:
  assumes "kw \<in> set keyword_alts" "ds \<noteq> []" "list_all is_digit ds"
  shows "re_bracket_sub repl (kw @ ''['' @ ds @ '']'') = repl kw ds"
proof -
  have m: "match_bracket_at (kw @ ''['' @ ds @ '']'') = Some (kw, ds, [])"
    using match_keyword_alt [OF assms(1), of "''['' @ ds @ '']''"]
      match_brackets_bracketed [OF assms(2,3), of "[]"]
    by (simp add: match_bracket_at_def)
  from assms(1) obtain c cs where k: "kw = c # cs"
    by (auto simp: keyword_alts_def)
  have "re_bracket_sub repl ((c # cs) @ ''['' @ ds @ '']'') = repl kw ds"
    using m unfolding k by simp
  then show ?thesis unfolding k .
qed

lemma literal_not_keyword:
  assumes "\<forall>c \<in> set pre. c \<notin> set ''fml''"
  shows "pre \<notin> set keyword_alts"
proof
  assume "pre \<in> set keyword_alts"
  then have "pre = ''first'' \<or> pre = ''middle'' \<or> pre = ''last''"
    by (simp add: keyword_alts_def)
  then have "pre \<noteq> [] \<and> hd pre \<in> set ''fml''"
    by (elim disjE) simp_all
  then have "hd pre \<in> set pre" and "hd pre \<in> set ''fml''"
    by simp_all
  with assms show False by blast
qed

lemma re_numeric_match_bracket_end:
  assumes "\<forall>c \<in> set pre. c \<notin> set ''fml''" "kw \<in> set keyword_alts"
    "ds \<noteq> []" "list_all is_digit ds"
  shows "re_numeric_match (pre @ kw @ ''['' @ ds @ '']'') = None"
proof (cases pre)
  case Nil
  have "match_digits_end (''['' @ ds @ '']'') = None"
    by (simp add: match_digits_end_def not_digit_brackets)
  moreover have "match_digits_end [] = None"
    by (simp add: match_digits_end_def)
  ultimately show ?thesis
    using match_keyword_alt [OF assms(2), of "''['' @ ds @ '']''"]
      match_brackets_bracketed [OF assms(3,4), of "[]"]
    by (simp add: Nil re_numeric_match_def)
next
  case (Cons c cs)
  with assms(1) have "match_keyword (pre @ kw @ ''['' @ ds @ '']'') = None"
    by (simp add: match_keyword_other_start)
  then show ?thesis by (simp add: re_numeric_match_def)
qed

section \<open>Properties of the pipeline\<close>

lemma total_generated_collect:
  "total_generated (collect gen st item) = total_generated st + length (usernames_of gen item)"
  by (simp add: collect_def usernames_of_def Let_def split: sum.splits option.splits)

lemma pbar_n_collect: "pbar_n (collect gen st item) = pbar_n st + 1"
  by (simp add: collect_def Let_def split: sum.splits option.splits)

lemma stderr_collect: "stderr (collect gen st item) = stderr st @ error_of gen item"
  by (simp add: collect_def error_of_def Let_def split: sum.splits option.splits)

lemma collect_no_file:
  "output_file st = None \<Longrightarrow>
     output_file (collect gen st item) = None
     \<and> stdout (collect gen st item) = stdout st @ usernames_of gen item"
  by (simp add: collect_def usernames_of_def Let_def split: sum.splits)

lemma file_lines_append: "file_lines (xs @ ys) = file_lines xs @ file_lines ys"
  by (simp add: file_lines_def)

lemma str_join_newline: "us \<noteq> [] \<Longrightarrow> str_join [CHR 0x0A] us @ [CHR 0x0A] = file_lines us"
  by (induction "[CHR 0x0A]" us rule: str_join.induct) (simp_all add: file_lines_def)

lemma collect_file:
  assumes "output_file st = Some w"
  shows "\<exists>w'. output_file (collect gen st item) = Some w'
          \<and> concat w' @ file_lines (output_buffer (collect gen st item))
              = concat w @ file_lines (output_buffer st) @ file_lines (usernames_of gen item)"
proof (cases "process_single_task gen (prepare_args item)")
  case (Inl e)
  with assms show ?thesis
    by (simp add: collect_def usernames_of_def file_lines_def)
next
  case (Inr us)
  show ?thesis
  proof (cases "length (output_buffer st @ us) \<ge> WRITE_BUFFER_SIZE")
    case True
    then have ne: "output_buffer st @ us \<noteq> []"
      by (auto simp: WRITE_BUFFER_SIZE_def)
    have "str_join [CHR 0x0A] (output_buffer st @ us) @ [CHR 0x0A]
        = file_lines (output_buffer st) @ file_lines us"
      using str_join_newline [OF ne] by (simp add: file_lines_append)
    with assms Inr True ne show ?thesis
      by (simp add: collect_def usernames_of_def batch_write_def Let_def file_lines_def)
  next
    case False
    with assms Inr show ?thesis
      by (simp add: collect_def usernames_of_def Let_def file_lines_append)
  qed
qed

lemma total_generated_foldl:
  "total_generated (foldl (collect gen) st items)
     = total_generated st + sum_list (map (\<lambda>i. length (usernames_of gen i)) items)"
  by (induction items arbitrary: st) (simp_all add: total_generated_collect)

lemma pbar_n_foldl: "pbar_n (foldl (collect gen) st items) = pbar_n st + length items"
  by (induction items arbitrary: st) (simp_all add: pbar_n_collect)

lemma stderr_foldl:
  "stderr (foldl (collect gen) st items) = stderr st @ concat (map (error_of gen) items)"
  by (induction items arbitrary: st) (simp_all add: stderr_collect)

lemma foldl_no_file:
  "output_file st = None \<Longrightarrow>
     output_file (foldl (collect gen) st items) = None
     \<and> stdout (foldl (collect gen) st items)
         = stdout st @ concat (map (usernames_of gen) items)"
proof (induction items arbitrary: st)
  case Nil
  then show ?case by simp
next
  case (Cons i items)
  from collect_no_file [OF Cons.prems, of gen i] Cons.IH [of "collect gen st i"]
  show ?case by simp
qed

lemma foldl_file:
  "output_file st = Some w \<Longrightarrow>
     \<exists>w'. output_file (foldl (collect gen) st items) = Some w'
       \<and> concat w' @ file_lines (output_buffer (foldl (collect gen) st items))
           = concat w @ file_lines (output_buffer st)
             @ file_lines (concat (map (usernames_of gen) items))"
proof (induction items arbitrary: st w)
  case Nil
  then show ?case by (simp add: file_lines_def)
next
  case (Cons i items)
  from collect_file [OF Cons.prems, of gen i] obtain w1 where
    w1: "output_file (collect gen st i) = Some w1"
    and c1: "concat w1 @ file_lines (output_buffer (collect gen st i))
              = concat w @ file_lines (output_buffer st) @ file_lines (usernames_of gen i)"
    by blast
  from Cons.IH [OF w1] obtain w' where
    w': "output_file (foldl (collect gen) (collect gen st i) items) = Some w'"
    and c': "concat w' @ file_lines (output_buffer (foldl (collect gen) (collect gen st i) items))
              = concat w1 @ file_lines (output_buffer (collect gen st i))
                @ file_lines (concat (map (usernames_of gen) items))"
    by blast
  from c' c1 have "concat w' @ file_lines (output_buffer (foldl (collect gen) (collect gen st i) items))
      = concat w @ file_lines (output_buffer st) @ file_lines (usernames_of gen i)
        @ file_lines (concat (map (usernames_of gen) items))"
    by (metis append_assoc)
  with w' show ?case by (simp add: file_lines_append)
qed

lemma collect_iterator_update:
  "collect gen (st\<lparr>iterator := it\<rparr>) item = (collect gen st item)\<lparr>iterator := it\<rparr>"
  by (simp add: collect_def Let_def split: sum.splits option.splits)

lemma foldl_iterator_update:
  "foldl (collect gen) (st\<lparr>iterator := it\<rparr>) items = (foldl (collect gen) st items)\<lparr>iterator := it\<rparr>"
  by (induction items arbitrary: st) (simp_all add: collect_iterator_update)

lemma chunks_Nil: "chunks 0 xs = []" "chunks n [] = []"
  by (simp_all add: chunks.simps)

lemma chunks_step:
  "0 < n \<Longrightarrow> xs \<noteq> [] \<Longrightarrow> chunks n xs = take n xs # chunks n (drop n xs)"
  by (subst chunks.simps) (simp add: Let_def)

lemma concat_chunks: "0 < n \<Longrightarrow> concat (chunks n xs) = xs"
proof (induction n xs rule: chunks.induct)
  case (1 n xs)
  show ?case
  proof (cases "xs = []")
    case True
    then show ?thesis by (simp add: chunks_Nil)
  next
    case False
    with "1.prems" have "take n xs \<noteq> []" by simp
    with "1.IH" [OF refl this] "1.prems" have "concat (chunks n (drop n xs)) = drop n xs"
      by simp
    with False "1.prems" show ?thesis by (simp add: chunks_step)
  qed
qed

lemma run_loop_fold:
  "run_loop gen order n st
     = (foldl (collect gen) st (completion_sequence order n (iterator st)))
         \<lparr>iterator := (if n = 0 then iterator st else [])\<rparr>"
proof (induction gen order n st rule: run_loop.induct)
  case (1 gen order n st)
  show ?case
  proof (cases "take n (iterator st) = []")
    case True
    then have "n = 0 \<or> iterator st = []" by simp
    then have "completion_sequence order n (iterator st) = []"
      by (auto simp: completion_sequence_def chunks_Nil)
    moreover have "run_loop gen order n st = st"
      using True by (subst run_loop.simps) (simp add: Let_def)
    ultimately show ?thesis using True by auto
  next
    case False
    then have n: "0 < n" and ne: "iterator st \<noteq> []" by auto
    let ?st1 = "foldl (collect gen) (st\<lparr>iterator := drop n (iterator st)\<rparr>)
                  (order (take n (iterator st)))"
    have it1: "iterator ?st1 = drop n (iterator st)"
      by (simp add: iterator_foldl_collect)
    have "run_loop gen order n st = run_loop gen order n ?st1"
      using False by (subst run_loop.simps) (simp add: Let_def)
    also have "\<dots> = (foldl (collect gen) ?st1
          (completion_sequence order n (drop n (iterator st))))\<lparr>iterator := []\<rparr>"
      using "1.IH" [OF refl False] n by (simp add: it1)
    also have "\<dots> = (foldl (collect gen) st
          (order (take n (iterator st)) @ completion_sequence order n (drop n (iterator st))))
            \<lparr>iterator := []\<rparr>"
      by (simp add: foldl_iterator_update)
    also have "order (take n (iterator st)) @ completion_sequence order n (drop n (iterator st))
        = completion_sequence order n (iterator st)"
      using n ne by (simp add: completion_sequence_def chunks_step)
    finally show ?thesis using n by simp
  qed
qed

lemma mset_completion_sequence:
  assumes "\<forall>c. mset (order c) = mset c" and "0 < n"
  shows "mset (completion_sequence order n src) = mset src"
proof -
  have "mset (concat (map order cs)) = mset (concat cs)" for cs
    using assms(1) by (induction cs) simp_all
  then show ?thesis
    using concat_chunks [OF assms(2), of src] by (simp add: completion_sequence_def)
qed

lemma last_run_loop_trace:
  "last (st # run_loop_trace gen order n st) = run_loop gen order n st"
proof (induction gen order n st rule: run_loop_trace.induct)
  case (1 gen order n st)
  show ?case
  proof (cases "take n (iterator st) = []")
    case True
    then show ?thesis
      by (subst run_loop_trace.simps, subst run_loop.simps) (simp add: Let_def)
  next
    case False
    let ?st1 = "st\<lparr>iterator := drop n (iterator st)\<rparr>"
    let ?tr = "?st1 # collect_trace gen ?st1 (order (take n (iterator st)))"
    have l: "last ?tr = foldl (collect gen) ?st1 (order (take n (iterator st)))"
      by (rule last_collect_trace)
    have t: "run_loop_trace gen order n st = ?tr @ run_loop_trace gen order n (last ?tr)"
      using False by (subst run_loop_trace.simps) (simp add: Let_def del: last.simps)
    have r: "run_loop gen order n st = run_loop gen order n (last ?tr)"
      using False by (subst run_loop.simps) (simp add: Let_def l del: last.simps)
    have "last (st # run_loop_trace gen order n st)
        = last (last ?tr # run_loop_trace gen order n (last ?tr))"
      unfolding t by (simp del: last.simps add: last_append last_ConsR) (simp add: last_append)
    also have "\<dots> = run_loop gen order n (last ?tr)"
      using "1.IH" [OF refl False refl refl] .
    finally show ?thesis using r by simp
  qed
qed

lemma collect_trace_states:
  assumes "s \<in> set (collect_trace gen st items)"
  shows "iterator s = iterator st \<and> pbar_n st < pbar_n s \<and> pbar_n s \<le> pbar_n st + length items"
  using assms
proof (induction items arbitrary: st)
  case Nil
  then show ?case by simp
next
  case (Cons i items)
  from Cons.prems have "s = collect gen st i \<or> s \<in> set (collect_trace gen (collect gen st i) items)"
    by simp
  then show ?case
  proof
    assume "s = collect gen st i"
    then show ?thesis by (simp add: iterator_collect pbar_n_collect)
  next
    assume "s \<in> set (collect_trace gen (collect gen st i) items)"
    from Cons.IH [OF this] show ?thesis
      by (simp add: iterator_collect pbar_n_collect)
  qed
qed

lemma run_loop_trace_states:
  assumes "\<forall>c. length (order c) = length c"
    and "iterator st = drop (k * n) src"
    and "pbar_n st = length src - length (iterator st)"
    and "s \<in> set (run_loop_trace gen order n st)"
  shows "(\<exists>j. iterator s = drop (j * n) src \<and> j * n \<le> pbar_n s + n)
       \<and> pbar_n s \<le> length src - length (iterator s)"
  using assms
proof (induction gen order n st arbitrary: k rule: run_loop_trace.induct)
  case (1 gen order n st)
  show ?case
  proof (cases "take n (iterator st) = []")
    case True
    with "1.prems"(4) show ?thesis
      by (subst (asm) run_loop_trace.simps) (simp add: Let_def)
  next
    case False
    then have n: "0 < n" and ne: "iterator st \<noteq> []" by auto
    let ?chunk = "take n (iterator st)"
    let ?st1 = "st\<lparr>iterator := drop n (iterator st)\<rparr>"
    let ?tr = "?st1 # collect_trace gen ?st1 (order ?chunk)"
    from ne "1.prems"(2) have kn: "k * n < length src" by simp
    have pb: "pbar_n st = k * n"
      using "1.prems"(2,3) kn by simp
    have len: "length (order ?chunk) = min n (length src - k * n)"
      using "1.prems"(1,2) by (simp add: min.commute)
    have it1: "iterator ?st1 = drop (Suc k * n) src"
      using "1.prems"(2) by (simp add: add.commute)
    have pulled1: "length src - length (iterator ?st1) = k * n + min n (length src - k * n)"
      using kn by (simp add: it1)
    have t: "run_loop_trace gen order n st = ?tr @ run_loop_trace gen order n (last ?tr)"
      using False by (subst run_loop_trace.simps) (simp add: Let_def del: last.simps)
    have l: "last ?tr = foldl (collect gen) ?st1 (order ?chunk)"
      by (rule last_collect_trace)
    from "1.prems"(4) t consider
      (pull) "s = ?st1"
      | (coll) "s \<in> set (collect_trace gen ?st1 (order ?chunk))"
      | (rest) "s \<in> set (run_loop_trace gen order n (last ?tr))"
      by (metis Un_iff set_ConsD set_append)
    then show ?thesis
    proof cases
      case pull
      have "iterator s = drop (Suc k * n) src \<and> Suc k * n \<le> pbar_n s + n"
        using pull it1 pb by simp
      moreover have "pbar_n s \<le> length src - length (iterator s)"
        using pull pulled1 pb by simp
      ultimately show ?thesis by blast
    next
      case coll
      from collect_trace_states [OF coll]
      have c: "iterator s = iterator ?st1" "pbar_n ?st1 < pbar_n s"
        "pbar_n s \<le> pbar_n ?st1 + length (order ?chunk)"
        by simp_all
      have "iterator s = drop (Suc k * n) src \<and> Suc k * n \<le> pbar_n s + n"
        using c(1,2) it1 pb by simp
      moreover have "pbar_n s \<le> length src - length (iterator s)"
        using c(1,3) pulled1 pb len by simp
      ultimately show ?thesis by blast
    next
      case rest
      have i2: "iterator (last ?tr) = drop (Suc k * n) src"
        unfolding l using it1 by (simp add: iterator_foldl_collect)
      have p2: "pbar_n (last ?tr) = length src - length (iterator (last ?tr))"
        unfolding l using pulled1 pb len
        by (simp add: iterator_foldl_collect pbar_n_foldl)
      from "1.IH" [OF refl False refl refl "1.prems"(1) i2 p2 rest]
      show ?thesis .
    qed
  qed
qed

text \<open>
  With a file, the writes of the loop are whole batches of at least
  \<open>WRITE_BUFFER_SIZE\<close> usernames; the batches and the buffer together hold the usernames
  collected so far, in order.
\<close>

lemma collect_file_batches:
  assumes "output_file st = Some (w @ map file_lines bs)"
    and "\<forall>b \<in> set bs. WRITE_BUFFER_SIZE \<le> length b"
    and "length (output_buffer st) < WRITE_BUFFER_SIZE"
  shows "\<exists>bs'. output_file (collect gen st item) = Some (w @ map file_lines bs')
          \<and> (\<forall>b \<in> set bs'. WRITE_BUFFER_SIZE \<le> length b)
          \<and> length (output_buffer (collect gen st item)) < WRITE_BUFFER_SIZE
          \<and> concat bs' @ output_buffer (collect gen st item)
              = concat bs @ output_buffer st @ usernames_of gen item"
proof (cases "process_single_task gen (prepare_args item)")
  case (Inl e)
  with assms have "output_file (collect gen st item) = Some (w @ map file_lines bs)
      \<and> output_buffer (collect gen st item) = output_buffer st
      \<and> usernames_of gen item = []"
    by (simp add: collect_def usernames_of_def)
  with assms(2,3) show ?thesis by auto
next
  case (Inr us)
  let ?buf = "output_buffer st @ us"
  show ?thesis
  proof (cases "WRITE_BUFFER_SIZE \<le> length ?buf")
    case True
    then have ne: "?buf \<noteq> []"
      by (auto simp: WRITE_BUFFER_SIZE_def)
    have "output_file (collect gen st item) = Some (w @ map file_lines (bs @ [?buf]))
        \<and> output_buffer (collect gen st item) = []"
      using assms(1) Inr True ne str_join_newline [OF ne]
      by (simp add: collect_def batch_write_def Let_def)
    moreover have "\<forall>b \<in> set (bs @ [?buf]). WRITE_BUFFER_SIZE \<le> length b"
      using assms(2) True by auto
    moreover have "usernames_of gen item = us"
      using Inr by (simp add: usernames_of_def)
    moreover have "0 < WRITE_BUFFER_SIZE" by (simp add: WRITE_BUFFER_SIZE_def)
    ultimately show ?thesis by (intro exI [of _ "bs @ [?buf]"]) simp
  next
    case False
    have "output_file (collect gen st item) = Some (w @ map file_lines bs)
        \<and> output_buffer (collect gen st item) = ?buf"
      using assms(1) Inr False by (simp add: collect_def Let_def)
    moreover have "usernames_of gen item = us"
      using Inr by (simp add: usernames_of_def)
    ultimately show ?thesis using assms(2) False by (intro exI [of _ bs]) simp
  qed
qed

lemma foldl_file_batches:
  assumes "output_file st = Some (w @ map file_lines bs)"
    and "\<forall>b \<in> set bs. WRITE_BUFFER_SIZE \<le> length b"
    and "length (output_buffer st) < WRITE_BUFFER_SIZE"
  shows "\<exists>bs'. output_file (foldl (collect gen) st items) = Some (w @ map file_lines bs')
          \<and> (\<forall>b \<in> set bs'. WRITE_BUFFER_SIZE \<le> length b)
          \<and> length (output_buffer (foldl (collect gen) st items)) < WRITE_BUFFER_SIZE
          \<and> concat bs' @ output_buffer (foldl (collect gen) st items)
              = concat bs @ output_buffer st @ concat (map (usernames_of gen) items)"
  using assms
proof (induction items arbitrary: st bs)
  case Nil
  then show ?case by (intro exI [of _ bs]) simp
next
  case (Cons i items)
  from collect_file_batches [OF Cons.prems, of gen i] obtain b1 where
    o1: "output_file (collect gen st i) = Some (w @ map file_lines b1)"
    and g1: "\<forall>b \<in> set b1. WRITE_BUFFER_SIZE \<le> length b"
    and l1: "length (output_buffer (collect gen st i)) < WRITE_BUFFER_SIZE"
    and c1: "concat b1 @ output_buffer (collect gen st i)
              = concat bs @ output_buffer st @ usernames_of gen i"
    by blast
  from Cons.IH [OF o1 g1 l1] obtain b2 where
    o2: "output_file (foldl (collect gen) (collect gen st i) items) = Some (w @ map file_lines b2)"
    and g2: "\<forall>b \<in> set b2. WRITE_BUFFER_SIZE \<le> length b"
    and l2: "length (output_buffer (foldl (collect gen) (collect gen st i) items)) < WRITE_BUFFER_SIZE"
    and c2: "concat b2 @ output_buffer (foldl (collect gen) (collect gen st i) items)
              = concat b1 @ output_buffer (collect gen st i) @ concat (map (usernames_of gen) items)"
    by blast
  from c2 c1 have "concat b2 @ output_buffer (foldl (collect gen) (collect gen st i) items)
      = concat bs @ output_buffer st @ usernames_of gen i @ concat (map (usernames_of gen) items)"
    by (metis append_assoc)
  with o2 g2 l2 show ?case by (intro exI [of _ b2]) simp
qed

lemma sum_list_mset_cong:
  "mset xs = mset ys \<Longrightarrow> sum_list (map f xs) = (sum_list (map f ys) :: nat)"
proof -
  assume a: "mset xs = mset ys"
  have "sum_list (map f zs) = sum_mset (image_mset f (mset zs))" for zs
    by (induction zs) simp_all
  with a show ?thesis by simp
qed

lemma mset_concat_map_cong:
  "mset xs = mset ys \<Longrightarrow> mset (concat (map g xs)) = mset (concat (map g ys))"
proof -
  assume a: "mset xs = mset ys"
  have "mset (concat (map g zs)) = sum_mset (image_mset (\<lambda>x. mset (g x)) (mset zs))" for zs
    by (induction zs) simp_all
  with a show ?thesis by simp
qed

lemma run_loop_result:
  assumes "0 < workers"
  shows "run_loop gen order (nat (workers * 200)) (initial_state src out)
     = (foldl (collect gen) (initial_state src out)
          (completion_sequence order (nat (workers * 200)) src))\<lparr>iterator := []\<rparr>"
  using assms by (simp add: run_loop_fold initial_state_def)

text \<open>\<^verbatim>\<open>str\<close> and \<^verbatim>\<open>int\<close> agree: reading the decimal string of a number gives it back.\<close>

lemma int_of_digits_snoc: "int_of_digits (s @ [c]) = 10 * int_of_digits s + digit_value c"
  by (simp add: int_of_digits_def)

lemma digit_value_digits: "n < 10 \<Longrightarrow> digit_value (digits ! n) = n"
proof -
  assume "n < 10"
  then have "n \<in> set [0 ..< 10]" by simp
  also have "[0 ..< 10] = [0, 1, 2, 3, 4, 5, 6, 7, 8, 9 :: nat]" by code_simp
  finally show ?thesis
    by (auto simp: digits_def digit_value_def)
qed

lemma int_of_digits_string_of_nat: "int_of_digits (string_of_nat n) = n"
proof (induction n rule: string_of_nat.induct)
  case (1 n)
  show ?case
  proof (cases "n < 10")
    case True
    then show ?thesis
      by (subst string_of_nat.simps) (simp add: int_of_digits_def digit_value_digits)
  next
    case False
    with "1.IH" show ?thesis
      by (subst string_of_nat.simps) (simp add: int_of_digits_snoc digit_value_digits)
  qed
qed

lemma generate_from_name_returns: "\<exists>usernames. generate_from_name gen name = Inr usernames"
  using parse_name_first [of "strip name"]
  by (simp add: generate_from_name_def Let_def)

lemma raw_name_returns:
  "\<exists>usernames. process_single_task gen (prepare_args (RawName name)) = Inr usernames"
  using generate_from_name_returns [of gen name]
  by (simp add: process_single_task_def prepare_args_def)

lemma full_pair_returns:
  "fn \<noteq> [] \<Longrightarrow> ln \<noteq> [] \<Longrightarrow>
     \<exists>usernames. process_single_task gen (prepare_args (FirstLast fn ln)) = Inr usernames"
  using generate_from_name_returns [of gen "fn @ '' '' @ ln"]
  by (simp add: process_single_task_def prepare_args_def)

section \<open>The claims\<close>

text \<open>
  C1. A pattern made of a keyword, an optional bracketed group of digits and a final group
  of digits \<open>ds\<close> takes the numeric-suffix path. With \<open>base\<close> the value of the keyword in
  the name (lower-cased when case sensitivity is off) and \<open>n\<close> the number that \<open>ds\<close>
  reads, the result is \<open>base\<close> followed by \<open>0\<close>, \<open>1\<close>, ..., \<open>n\<close>, in this order, and it is
  empty when \<open>base\<close> is empty. The bracketed digits do not occur in the result, and the
  pattern is never substituted as a whole. This holds for every parsed name. For a
  dictionary built otherwise the result is also empty when \<open>base\<close> is made of whitespace
  only, which no value of a parsed name is.
\<close>

theorem numeric_suffix_enumeration:
  assumes "kw \<in> set keyword_alts"
    and "br = [] \<or> (\<exists>bd. bd \<noteq> [] \<and> list_all is_digit bd \<and> br = ''['' @ bd @ '']'')"
    and "ds \<noteq> []" and "list_all is_digit ds"
  shows "apply_format cs (kw @ br @ ds) name_parts =
     (let v = dict_get name_parts kw; base = (if cs then v else str_lower v)
      in if base = [] \<or> str_isspace base then []
         else map (\<lambda>i. base @ string_of_nat i) [0 ..< int_of_digits ds + 1])
   \<and> apply_format cs (kw @ br @ ds) (parse_name name) =
     (let v = dict_get (parse_name name) kw; base = (if cs then v else str_lower v)
      in if base = [] then []
         else map (\<lambda>i. base @ string_of_nat i) [0 ..< int_of_digits ds + 1])"
proof -
  have m: "re_numeric_match (kw @ br @ ds) = Some (kw, ds)"
    using assms by (rule re_numeric_match_suffix)
  have g: "apply_format cs (kw @ br @ ds) parts =
     (let v = dict_get parts kw; base = (if cs then v else str_lower v)
      in if base = [] \<or> str_isspace base then []
         else map (\<lambda>i. base @ string_of_nat i) [0 ..< int_of_digits ds + 1])"
    for parts
    by (simp add: apply_format_def m process_format_keyword [OF assms(1)] Let_def)
  have "\<not> str_isspace (dict_get (parse_name name) kw)"
    and "\<not> str_isspace (str_lower (dict_get (parse_name name) kw))"
    by (simp_all add: str_isspace_lower parse_name_no_space)
  then have "apply_format cs (kw @ br @ ds) (parse_name name) =
     (let v = dict_get (parse_name name) kw; base = (if cs then v else str_lower v)
      in if base = [] then []
         else map (\<lambda>i. base @ string_of_nat i) [0 ..< int_of_digits ds + 1])"
    unfolding g [of "parse_name name"] by (simp add: Let_def)
  with g [of name_parts] show ?thesis by (rule conjI)
qed

theorem numeric_suffix_enumeration_witness:
  "apply_format True ''first[2]5'' (parse_name ''Ada Lovelace'')
     = [''Ada0'', ''Ada1'', ''Ada2'', ''Ada3'', ''Ada4'', ''Ada5'']
   \<and> apply_format False ''last12'' (parse_name ''Ada'') = []"
proof -
  have k: "''first'' \<in> set keyword_alts" "''last'' \<in> set keyword_alts"
    by (simp_all add: keyword_alts_def)
  have b: "''[2]'' = [] \<or> (\<exists>bd. bd \<noteq> [] \<and> list_all is_digit bd \<and> ''[2]'' = ''['' @ bd @ '']'')"
    by (simp add: is_digit_def digits_def)
  have b': "([]::string) = [] \<or> (\<exists>bd. bd \<noteq> [] \<and> list_all is_digit bd \<and> [] = ''['' @ bd @ '']'')"
    by simp
  have d: "''5'' \<noteq> []" "list_all is_digit ''5''" "''12'' \<noteq> []" "list_all is_digit ''12''"
    by (simp_all add: is_digit_def digits_def)
  have v1: "dict_get (parse_name ''Ada Lovelace'') ''first'' = ''Ada''"
    by code_simp
  have v2: "dict_get (parse_name ''Ada'') ''last'' = []"
    by code_simp
  have e: "map (\<lambda>i. ''Ada'' @ string_of_nat i) [0 ..< int_of_digits ''5'' + 1]
      = [''Ada0'', ''Ada1'', ''Ada2'', ''Ada3'', ''Ada4'', ''Ada5'']"
    by code_simp
  note t1 = numeric_suffix_enumeration [OF k(1) b d(1,2), THEN conjunct2]
  note t2 = numeric_suffix_enumeration [OF k(2) b' d(3,4), THEN conjunct2]
  have r1: "apply_format True (''first'' @ ''[2]'' @ ''5'') (parse_name ''Ada Lovelace'')
      = [''Ada0'', ''Ada1'', ''Ada2'', ''Ada3'', ''Ada4'', ''Ada5'']"
    unfolding t1 v1 Let_def if_True e by simp
  have r2: "apply_format False (''last'' @ [] @ ''12'') (parse_name ''Ada'') = []"
    unfolding t2 v2 Let_def by (simp add: str_lower_def)
  from r1 r2 show ?thesis by simp
qed

text \<open>
  C2. In a run with a positive number of workers, whatever the order in which futures
  complete: at every step the iterator stands at a multiple \<open>j\<close> of \<open>workers * 200\<close> in
  the source, all items of the first \<open>j - 1\<close> chunks have been collected, no more items
  have been collected than taken, and the items taken and not yet collected are at most
  \<open>workers * 200\<close>. The observed run ends in the state that \<open>run_loop\<close> computes.
\<close>

theorem in_flight_bounded_by_chunk:
  assumes "\<forall>c. mset (order c) = mset c" and "0 < workers"
  shows "(\<forall>s \<in> set (run_processing_trace gen order src out workers).
            (\<exists>j. iterator s = drop (j * nat (workers * 200)) src
                 \<and> j * nat (workers * 200) \<le> pbar_n s + nat (workers * 200))
            \<and> pbar_n s \<le> length src - length (iterator s)
            \<and> in_flight src s \<le> nat (workers * 200))
       \<and> last (run_processing_trace gen order src out workers)
           = run_loop gen order (nat (workers * 200)) (initial_state src out)"
proof -
  let ?n = "nat (workers * 200)"
  let ?st0 = "initial_state src out"
  have tr: "run_processing_trace gen order src out workers = ?st0 # run_loop_trace gen order ?n ?st0"
    using assms(2) by (simp add: run_processing_trace_def)
  have len: "\<forall>c. length (order c) = length c"
    using assms(1) by (metis mset_eq_length)
  have inv: "(\<exists>j. iterator s = drop (j * ?n) src \<and> j * ?n \<le> pbar_n s + ?n)
       \<and> pbar_n s \<le> length src - length (iterator s)"
    if "s \<in> set (run_processing_trace gen order src out workers)" for s
  proof -
    from that tr have "s = ?st0 \<or> s \<in> set (run_loop_trace gen order ?n ?st0)" by simp
    then show ?thesis
    proof
      assume s: "s = ?st0"
      have "iterator s = drop (0 * ?n) src \<and> 0 * ?n \<le> pbar_n s + ?n"
        by (simp add: s initial_state_def)
      moreover have "pbar_n s \<le> length src - length (iterator s)"
        by (simp add: s initial_state_def)
      ultimately show ?thesis by blast
    next
      assume s: "s \<in> set (run_loop_trace gen order ?n ?st0)"
      have i: "iterator ?st0 = drop (0 * ?n) src" by (simp add: initial_state_def)
      have p: "pbar_n ?st0 = length src - length (iterator ?st0)" by (simp add: initial_state_def)
      from run_loop_trace_states [OF len i p s] show ?thesis .
    qed
  qed
  have bound: "in_flight src s \<le> ?n"
    if "s \<in> set (run_processing_trace gen order src out workers)" for s
  proof -
    from inv [OF that] obtain j where j: "iterator s = drop (j * ?n) src"
      "j * ?n \<le> pbar_n s + ?n" by blast
    have "length src - length (iterator s) \<le> j * ?n" by (simp add: j(1))
    with j(2) show ?thesis by (simp add: in_flight_def)
  qed
  have "last (run_processing_trace gen order src out workers) = run_loop gen order ?n ?st0"
    unfolding tr by (rule last_run_loop_trace)
  with inv bound show ?thesis by blast
qed

theorem in_flight_bounded_witness:
  "(\<forall>c. mset (rev c) = mset (c :: work_item list)) \<and> (0::int) < 1
   \<and> in_flight [RawName ''Ada Lovelace'', FirstLast [] ''Smith'', RawName ''Bob'']
        (run_processing_trace (UsernameGenerator True (Some [''first'', ''last''])) rev
           [RawName ''Ada Lovelace'', FirstLast [] ''Smith'', RawName ''Bob''] None 1 ! 1)
       \<le> nat (1 * 200)
   \<and> map (in_flight [RawName ''Ada Lovelace'', FirstLast [] ''Smith'', RawName ''Bob''])
        (run_processing_trace (UsernameGenerator True (Some [''first'', ''last''])) rev
           [RawName ''Ada Lovelace'', FirstLast [] ''Smith'', RawName ''Bob''] None 1)
       = [0, 3, 2, 1, 0]"
proof -
  let ?src = "[RawName ''Ada Lovelace'', FirstLast [] ''Smith'', RawName ''Bob'']"
  let ?tr = "run_processing_trace (UsernameGenerator True (Some [''first'', ''last''])) rev ?src None 1"
  have p: "\<forall>c. mset (rev c) = mset (c :: work_item list)" by simp
  have w: "(0::int) < 1" by simp
  have l: "length ?tr = 5" by code_simp
  then have m: "?tr ! 1 \<in> set ?tr" by (simp add: nth_mem)
  have e: "map (in_flight ?src) ?tr = [0, 3, 2, 1, 0]" by code_simp
  from in_flight_bounded_by_chunk [OF p w, of "UsernameGenerator True (Some [''first'', ''last''])" ?src None] m
  have "in_flight ?src (?tr ! 1) \<le> nat (1 * 200)" by blast
  with p w e show ?thesis by blast
qed

text \<open>
  C3. A run with a positive number of workers returns. Its total is the sum, over the
  items of the source, of the number of usernames of each item, an item that fails
  counting for none. The progress counter ends at the number of items. Standard error
  holds exactly one event for each failing item, with the item and its exception. The
  usernames of the successful items are forwarded in order of completion: to standard
  output without a file, to the file otherwise.
\<close>

theorem failures_are_isolated:
  assumes "\<forall>c. mset (order c) = mset c" and "0 < workers"
  shows "\<exists>st. run_processing gen order src out workers = Inr st
     \<and> total_generated st = sum_list (map (\<lambda>item. length (usernames_of gen item)) src)
     \<and> pbar_n st = length src
     \<and> mset (stderr st) = mset (concat (map (error_of gen) src))
     \<and> (case out of
          None \<Rightarrow> stdout st = concat (map (usernames_of gen)
                                (completion_sequence order (nat (workers * 200)) src))
        | Some w \<Rightarrow> \<exists>written. output_file st = Some written
            \<and> concat written = concat w @ file_lines (concat (map (usernames_of gen)
                                (completion_sequence order (nat (workers * 200)) src))))"
proof -
  let ?n = "nat (workers * 200)"
  let ?seq = "completion_sequence order ?n src"
  let ?f = "foldl (collect gen) (initial_state src out) ?seq"
  let ?st = "run_loop gen order ?n (initial_state src out)"
  have n: "0 < ?n" using assms(2) by simp
  have perm: "mset ?seq = mset src"
    using assms(1) n by (rule mset_completion_sequence)
  have st: "?st = ?f\<lparr>iterator := []\<rparr>"
    using assms(2) by (rule run_loop_result)
  have tot: "total_generated ?st = sum_list (map (\<lambda>item. length (usernames_of gen item)) src)"
    unfolding st using sum_list_mset_cong [OF perm]
    by (simp add: total_generated_foldl initial_state_def)
  have pb: "pbar_n ?st = length src"
    unfolding st using mset_eq_length [OF perm]
    by (simp add: pbar_n_foldl initial_state_def)
  have err: "mset (stderr ?st) = mset (concat (map (error_of gen) src))"
    unfolding st using mset_concat_map_cong [OF perm]
    by (simp add: stderr_foldl initial_state_def)
  show ?thesis
  proof (cases out)
    case None
    then have o: "output_file (initial_state src out) = None"
      by (simp add: initial_state_def)
    from foldl_no_file [OF o, of gen ?seq]
    have "output_file ?st = None" and "stdout ?st = concat (map (usernames_of gen) ?seq)"
      unfolding st by (simp_all add: initial_state_def)
    with tot pb err None assms(2) show ?thesis
      by (simp add: run_processing_def Let_def)
  next
    case (Some w)
    then have o: "output_file (initial_state src out) = Some w"
      by (simp add: initial_state_def)
    from foldl_file [OF o, of gen ?seq] obtain w' where
      w': "output_file ?st = Some w'"
      and c: "concat w' @ file_lines (output_buffer ?st)
               = concat w @ file_lines (concat (map (usernames_of gen) ?seq))"
      unfolding st by (auto simp: initial_state_def file_lines_def)
    show ?thesis
    proof (cases "output_buffer ?st = []")
      case True
      with c have "concat w' = concat w @ file_lines (concat (map (usernames_of gen) ?seq))"
        by (simp add: file_lines_def)
      with tot pb err Some assms(2) w' True show ?thesis
        by (simp add: run_processing_def Let_def)
    next
      case False
      have "batch_write (Some w') (output_buffer ?st) = Some (w' @ [file_lines (output_buffer ?st)])"
        using False by (simp add: batch_write_def str_join_newline)
      with tot pb err Some assms(2) w' False c show ?thesis
        by (simp add: run_processing_def Let_def)
    qed
  qed
qed

theorem failures_are_isolated_witness:
  "\<exists>st. run_processing (UsernameGenerator True (Some [''first'', ''last''])) rev
           [RawName ''Ada Lovelace'', FirstLast [] ''Smith'', RawName ''Bob''] None 1 = Inr st
     \<and> total_generated st = 3 \<and> pbar_n st = 3
     \<and> mset (stderr st) = {#(FirstLast [] ''Smith'', AttributeError)#}
     \<and> stdout st = [''Bob'', ''Ada'', ''Lovelace'']"
proof -
  let ?gen = "UsernameGenerator True (Some [''first'', ''last''])"
  let ?src = "[RawName ''Ada Lovelace'', FirstLast [] ''Smith'', RawName ''Bob'']"
  have p: "\<forall>c. mset (rev c) = mset (c :: work_item list)" by simp
  have w: "(0::int) < 1" by simp
  have t: "sum_list (map (\<lambda>item. length (usernames_of ?gen item)) ?src) = 3" by code_simp
  have e: "concat (map (error_of ?gen) ?src) = [(FirstLast [] ''Smith'', AttributeError)]"
    by code_simp
  have o: "concat (map (usernames_of ?gen) (completion_sequence rev (nat (1 * 200)) ?src))
      = [''Bob'', ''Ada'', ''Lovelace'']"
    by code_simp
  have l: "length ?src = 3" by simp
  from failures_are_isolated [OF p w, of ?gen ?src None]
  show ?thesis unfolding t e o l by simp
qed

text \<open>
  C4, as the code has it. With \<^verbatim>\<open>case_sensitive=True\<close> the pattern \<^verbatim>\<open>first[2]last\<close> on
  the name \<^verbatim>\<open>Ada Lovelace\<close> yields the single string \<^verbatim>\<open>AdLovelace\<close>: the first two
  characters of the first name as they were typed, capital \<^verbatim>\<open>A\<close> included, followed
  by the last name. The pattern starts with a lowercase letter, so no re-casing is done.
\<close>

theorem first2last_keeps_input_case:
  "apply_format True ''first[2]last'' (parse_name ''Ada Lovelace'') = [''AdLovelace'']"
  by code_simp

text \<open>
  C4, as the claim words it, fails: the result is not \<^verbatim>\<open>adLovelace\<close>, since nothing
  lower-cases the \<^verbatim>\<open>A\<close> taken from the input.
\<close>

theorem first2last_not_lowercased:
  "apply_format True ''first[2]last'' (parse_name ''Ada Lovelace'') \<noteq> [''adLovelace'']"
  by code_simp

text \<open>
  C5. The claim expects \<^verbatim>\<open>Ada.Lovelace\<close> from the pattern \<^verbatim>\<open>First.Last\<close>. The three
  regular expressions are compiled without \<^verbatim>\<open>re.IGNORECASE\<close>, so \<^verbatim>\<open>First\<close> and
  \<^verbatim>\<open>Last\<close> are not keywords: nothing is substituted, and capitalising the segments of
  the literal text gives back \<^verbatim>\<open>First.Last\<close>.
\<close>

theorem capitalised_keywords_not_substituted:
  "apply_format True ''First.Last'' (parse_name ''Ada Lovelace'') = [''First.Last'']"
  by code_simp

text \<open>
  C6. A name whose parsed first component is empty, and so every name made of whitespace
  only and the empty name, yields the empty list, for every generator.
\<close>

theorem empty_first_component_yields_nothing:
  assumes "dict_get (parse_name name) ''first'' = [] \<or> list_all is_space name"
  shows "generate_from_name gen name = Inr []"
proof (cases "strip name = []")
  case True
  then show ?thesis by (simp add: generate_from_name_def)
next
  case False
  with assms have e: "dict_get (parse_name name) ''first'' = []"
    by (auto dest: strip_all_space)
  have "parse_name (strip name) ''first'' = Some []"
    using parse_name_first [of name] e by (simp add: parse_name_strip)
  then show ?thesis by (simp add: generate_from_name_def Let_def)
qed

theorem empty_first_component_witness:
  "list_all is_space '' '' \<and> dict_get (parse_name '''') ''first'' = []
   \<and> generate_from_name (UsernameGenerator True None) '' '' = Inr []
   \<and> generate_from_name (UsernameGenerator False (Some [''first5''])) '''' = Inr []"
proof -
  have a: "list_all is_space '' ''" by (simp add: is_space_def)
  have b: "dict_get (parse_name '''') ''first'' = []" by code_simp
  show ?thesis
    using a b empty_first_component_yields_nothing [of " '' ''" "UsernameGenerator True None"]
      empty_first_component_yields_nothing [of "''''" "UsernameGenerator False (Some [''first5''])"]
    by simp
qed

text \<open>
  C7, as the code has it. Every item that \<^verbatim>\<open>main\<close> builds, from one file of names or from
  two, gives a list and no exception. So does every raw name, which gives the empty list
  when it is empty or blank, and every pair whose two components are not empty;
  \<^verbatim>\<open>load_names\<close> hands out no other pairs.
\<close>

theorem built_items_return_lists:
  "(item \<in> set (single_source input_lines) \<union> set (combination_source first_lines last_lines)
      \<longrightarrow> (\<exists>usernames. process_single_task gen (prepare_args item) = Inr usernames))
   \<and> (\<exists>usernames. process_single_task gen (prepare_args (RawName name)) = Inr usernames)
   \<and> (list_all is_space name \<longrightarrow> process_single_task gen (prepare_args (RawName name)) = Inr [])
   \<and> (fn \<noteq> [] \<and> ln \<noteq> []
      \<longrightarrow> (\<exists>usernames. process_single_task gen (prepare_args (FirstLast fn ln)) = Inr usernames))"
proof -
  have a: "\<exists>usernames. process_single_task gen (prepare_args item) = Inr usernames"
    if "item \<in> set (single_source input_lines) \<union> set (combination_source first_lines last_lines)"
  proof -
    from that consider
      (single) n where "item = RawName n"
      | (pair) f l where "item = FirstLast f l" "f \<in> set (load_names first_lines)"
          "l \<in> set (load_names last_lines)"
      by (auto simp: single_source_def combination_source_def)
    then show ?thesis
    proof cases
      case single
      then show ?thesis by (simp add: raw_name_returns)
    next
      case pair
      from pair(2,3) have "f \<noteq> []" "l \<noteq> []" by (auto dest: load_names_nonempty)
      with pair(1) show ?thesis by (simp add: full_pair_returns)
    qed
  qed
  have c: "process_single_task gen (prepare_args (RawName name)) = Inr []"
    if "list_all is_space name"
    using that strip_all_space [of name]
    by (simp add: process_single_task_def prepare_args_def generate_from_name_def)
  from a c raw_name_returns [of gen name] full_pair_returns [of fn ln gen]
  show ?thesis by blast
qed

theorem built_items_witness:
  "FirstLast ''Ada'' ''Lovelace''
     \<in> set (single_source []) \<union> set (combination_source [[CHR 0x20, CHR ''A'', CHR ''d'', CHR ''a'', CHR 0x0A], [CHR 0x0A]]
                                      [[CHR ''L'', CHR ''o'', CHR ''v'', CHR ''e'', CHR ''l'', CHR ''a'', CHR ''c'', CHR ''e'', CHR 0x0A]])
   \<and> (\<exists>usernames. process_single_task (UsernameGenerator True None)
          (prepare_args (FirstLast ''Ada'' ''Lovelace'')) = Inr usernames)
   \<and> list_all is_space [CHR 0x20, CHR 0x09]
   \<and> process_single_task (UsernameGenerator True None) (prepare_args (RawName [CHR 0x20, CHR 0x09])) = Inr []"
proof -
  let ?fl = "[[CHR 0x20, CHR ''A'', CHR ''d'', CHR ''a'', CHR 0x0A], [CHR 0x0A]]"
  let ?ll = "[[CHR ''L'', CHR ''o'', CHR ''v'', CHR ''e'', CHR ''l'', CHR ''a'', CHR ''c'', CHR ''e'', CHR 0x0A]]"
  have s: "combination_source ?fl ?ll = [FirstLast ''Ada'' ''Lovelace'']" by code_simp
  then have m: "FirstLast ''Ada'' ''Lovelace'' \<in> set (single_source []) \<union> set (combination_source ?fl ?ll)"
    by simp
  have w: "list_all is_space [CHR 0x20, CHR 0x09]" by (simp add: is_space_def)
  note t = built_items_return_lists [of "FirstLast ''Ada'' ''Lovelace''" "[]" ?fl ?ll
      "UsernameGenerator True None" "[CHR 0x20, CHR 0x09]" "''Ada''" "''Lovelace''"]
  from t m w show ?thesis by blast
qed

text \<open>
  C7, as the claim words it, fails: for a pair with an empty component \<^verbatim>\<open>fn and ln\<close> is
  false, \<^verbatim>\<open>full_name\<close> becomes the \<^verbatim>\<open>None\<close> that \<^verbatim>\<open>prepare_args\<close> put in the place of
  the name, and \<^verbatim>\<open>name.strip()\<close> raises \<^verbatim>\<open>AttributeError\<close>.
\<close>

theorem pair_with_empty_component_raises:
  "process_single_task (UsernameGenerator True None) (prepare_args (FirstLast [] ''Smith''))
     = Inl AttributeError
   \<and> process_single_task (UsernameGenerator True None) (prepare_args (FirstLast ''Ada'' []))
     = Inl AttributeError"
  by (simp add: process_single_task_def prepare_args_def)

text \<open>
  C8, as the code has it. With an output file and a positive number of workers, whatever
  the order of completion, the run returns. In the loop each write puts one batch into
  the file: the buffer, joined by newlines and ended by one, at a moment when it holds at
  least 1000 usernames. After the loop the buffer holds fewer than 1000, and when it is
  not empty one more write puts it into the file. The batches followed by that rest are
  the usernames of all items, each once, in order of completion, which is a
  rearrangement of the source. The write after the loop does not clear the buffer: the
  rest is still in it when the run returns.
\<close>

theorem buffered_output_written_once:
  assumes "\<forall>c. mset (order c) = mset c" and "0 < workers"
  shows "\<exists>st bs. run_processing gen order src (Some w) workers = Inr st
     \<and> output_file st
         = Some (w @ map file_lines bs
                   @ (if output_buffer st = [] then [] else [file_lines (output_buffer st)]))
     \<and> (\<forall>b \<in> set bs. WRITE_BUFFER_SIZE \<le> length b)
     \<and> length (output_buffer st) < WRITE_BUFFER_SIZE
     \<and> concat bs @ output_buffer st
         = concat (map (usernames_of gen) (completion_sequence order (nat (workers * 200)) src))
     \<and> mset (completion_sequence order (nat (workers * 200)) src) = mset src"
proof -
  let ?n = "nat (workers * 200)"
  let ?seq = "completion_sequence order ?n src"
  let ?init = "initial_state src (Some w)"
  let ?st = "run_loop gen order ?n ?init"
  have n: "0 < ?n" using assms(2) by simp
  have perm: "mset ?seq = mset src"
    using assms(1) n by (rule mset_completion_sequence)
  have st: "?st = (foldl (collect gen) ?init ?seq)\<lparr>iterator := []\<rparr>"
    using assms(2) by (rule run_loop_result)
  have o: "output_file ?init = Some (w @ map file_lines [])"
    and g: "\<forall>b \<in> set ([] :: string list list). WRITE_BUFFER_SIZE \<le> length b"
    and l: "length (output_buffer ?init) < WRITE_BUFFER_SIZE"
    by (simp_all add: initial_state_def WRITE_BUFFER_SIZE_def)
  from foldl_file_batches [OF o g l, of gen ?seq] obtain bs where
    o': "output_file ?st = Some (w @ map file_lines bs)"
    and g': "\<forall>b \<in> set bs. WRITE_BUFFER_SIZE \<le> length b"
    and l': "length (output_buffer ?st) < WRITE_BUFFER_SIZE"
    and c': "concat bs @ output_buffer ?st = concat (map (usernames_of gen) ?seq)"
    unfolding st by (auto simp: initial_state_def)
  show ?thesis
  proof (cases "output_buffer ?st = []")
    case True
    with perm assms(2) o' g' l' c' show ?thesis
      by (intro exI [of _ ?st] exI [of _ bs]) (simp add: run_processing_def Let_def)
  next
    case False
    have "batch_write (Some (w @ map file_lines bs)) (output_buffer ?st)
        = Some (w @ map file_lines bs @ [file_lines (output_buffer ?st)])"
      using False by (simp add: batch_write_def str_join_newline)
    with perm assms(2) o' g' l' c' False show ?thesis
      by (intro exI [of _ "?st\<lparr>output_file := batch_write (output_file ?st) (output_buffer ?st)\<rparr>"]
          exI [of _ bs]) (simp add: run_processing_def Let_def)
  qed
qed

theorem buffered_output_witness:
  "\<exists>st bs. run_processing (UsernameGenerator True (Some [''first'', ''last''])) rev
           [RawName ''Ada Lovelace'', FirstLast [] ''Smith'', RawName ''Bob''] (Some []) 1 = Inr st
     \<and> output_file st
         = Some (map file_lines bs
                   @ (if output_buffer st = [] then [] else [file_lines (output_buffer st)]))
     \<and> length (output_buffer st) < WRITE_BUFFER_SIZE
     \<and> concat bs @ output_buffer st = [''Bob'', ''Ada'', ''Lovelace'']"
proof -
  let ?gen = "UsernameGenerator True (Some [''first'', ''last''])"
  let ?src = "[RawName ''Ada Lovelace'', FirstLast [] ''Smith'', RawName ''Bob'']"
  have p: "\<forall>c. mset (rev c) = mset (c :: work_item list)" by simp
  have w: "(0::int) < 1" by simp
  have o: "concat (map (usernames_of ?gen) (completion_sequence rev (nat (1 * 200)) ?src))
      = [''Bob'', ''Ada'', ''Lovelace'']"
    by code_simp
  from buffered_output_written_once [OF p w, of ?gen ?src "[]"] obtain st bs where
    a: "run_processing ?gen rev ?src (Some []) 1 = Inr st"
    and b: "output_file st
         = Some ([] @ map file_lines bs
                   @ (if output_buffer st = [] then [] else [file_lines (output_buffer st)]))"
    and c: "length (output_buffer st) < WRITE_BUFFER_SIZE"
    and d: "concat bs @ output_buffer st
         = concat (map (usernames_of ?gen) (completion_sequence rev (nat (1 * 200)) ?src))"
    by blast
  from b have b': "output_file st
         = Some (map file_lines bs
                   @ (if output_buffer st = [] then [] else [file_lines (output_buffer st)]))"
    by (simp only: append_Nil)
  from a b' c d [unfolded o] show ?thesis by blast
qed

text \<open>
  C8, as the claim words it, fails in its last part: after a run over the single name
  \<^verbatim>\<open>Ada\<close> with the pattern \<^verbatim>\<open>first\<close> the buffer still holds \<^verbatim>\<open>Ada\<close>.
\<close>

theorem final_write_keeps_buffer:
  "map_sum id output_buffer
     (run_processing (UsernameGenerator True (Some [''first''])) id [RawName ''Ada''] (Some []) 1)
   = Inr [''Ada'']"
  by code_simp

text \<open>
  C9. A generator built without formats (\<^verbatim>\<open>None\<close>, or an empty list) uses
  \<^verbatim>\<open>DEFAULT_FORMATS\<close>. These are 18 different patterns: the four plain forms, the
  dotted, hyphenated and underscored pairs, six forms with a \<^verbatim>\<open>[1]\<close> truncation inside,
  and the two concatenated forms that end in \<^verbatim>\<open>[1]\<close>, which are the variants with a
  trailing digit. None of the 18 is a numeric-suffix pattern.
\<close>

theorem default_formats_cover:
  "formats (UsernameGenerator cs None) = DEFAULT_FORMATS
   \<and> formats (UsernameGenerator cs (Some [])) = DEFAULT_FORMATS
   \<and> length DEFAULT_FORMATS = 18
   \<and> distinct DEFAULT_FORMATS
   \<and> set DEFAULT_FORMATS =
       set [''first'', ''last'', ''firstlast'', ''lastfirst'']
       \<union> set [''first.last'', ''last.first'']
       \<union> set [''first-last'', ''last-first'']
       \<union> set [''first_last'', ''last_first'']
       \<union> set [''first[1].last'', ''last[1].first'', ''first[1]last'', ''last[1]first'',
              ''first[1]last[1]'', ''last[1]first[1]'']
       \<union> set [''firstlast[1]'', ''lastfirst[1]'']
   \<and> map re_numeric_match DEFAULT_FORMATS = replicate 18 None"
proof -
  have a: "formats (UsernameGenerator cs None) = DEFAULT_FORMATS"
    by (simp add: UsernameGenerator_def)
  have b: "formats (UsernameGenerator cs (Some [])) = DEFAULT_FORMATS"
    by (simp add: UsernameGenerator_def)
  have c: "length DEFAULT_FORMATS = 18"
    by (simp add: DEFAULT_FORMATS_def)
  have d: "distinct DEFAULT_FORMATS"
    by (simp add: DEFAULT_FORMATS_def)
  have e: "set DEFAULT_FORMATS =
       set [''first'', ''last'', ''firstlast'', ''lastfirst'']
       \<union> set [''first.last'', ''last.first'']
       \<union> set [''first-last'', ''last-first'']
       \<union> set [''first_last'', ''last_first'']
       \<union> set [''first[1].last'', ''last[1].first'', ''first[1]last'', ''last[1]first'',
              ''first[1]last[1]'', ''last[1]first[1]'']
       \<union> set [''firstlast[1]'', ''lastfirst[1]'']"
    unfolding DEFAULT_FORMATS_def by (simp add: insert_commute)
  have f: "map re_numeric_match DEFAULT_FORMATS = replicate 18 None"
    by code_simp
  from a b c d e f show ?thesis by blast
qed

text \<open>
  C10. The keyword pass scans the text that the bracket pass has produced. Take a
  pattern made of literal text without the letters \<^verbatim>\<open>f\<close>, \<^verbatim>\<open>m\<close>, \<^verbatim>\<open>l\<close>, then a keyword with
  a bracketed length, and a name in which the truncated value of that keyword spells a
  keyword. The bracket pass gives the literal text followed by the spelled keyword; the
  keyword pass finds that keyword and puts its value in its place, so the pattern
  evaluates to the literal text followed by the value of the second keyword, shaped by
  the case rules.
\<close>

theorem keyword_pass_rescans_bracket_values:
  assumes "\<forall>c \<in> set pre. c \<notin> set ''fml''"
    and "kw \<in> set keyword_alts" and "kw' \<in> set keyword_alts"
    and "ds \<noteq> []" and "list_all is_digit ds"
    and "take (int_of_digits ds) (dict_get name_parts kw) = kw'"
  shows "re_bracket_sub (replace_with_length name_parts) (pre @ kw @ ''['' @ ds @ '']'') = pre @ kw'
   \<and> re_keywords_split (pre @ kw') = [pre, kw', []]
   \<and> apply_format cs (pre @ kw @ ''['' @ ds @ '']'') name_parts =
       (let result = case_handling cs (pre @ kw @ ''['' @ ds @ '']'')
                       (pre @ dict_get name_parts kw')
        in if result \<noteq> [] \<and> \<not> str_isspace result then [result] else [])"
proof -
  let ?fmt = "pre @ kw @ ''['' @ ds @ '']''"
  from assms(3) have "kw' \<noteq> []"
    by (auto simp: keyword_alts_def)
  with assms(6) have v: "dict_get name_parts kw \<noteq> []"
    by auto
  have "re_bracket_sub (replace_with_length name_parts) ?fmt
      = pre @ replace_with_length name_parts kw ds"
    unfolding re_bracket_sub_literal [OF assms(1)]
      re_bracket_sub_keyword_bracket [OF assms(2,4,5)] ..
  also have "replace_with_length name_parts kw ds = kw'"
    using assms(6) v by (simp add: replace_with_length_def)
  finally have b: "re_bracket_sub (replace_with_length name_parts) ?fmt = pre @ kw'" .
  have s: "re_keywords_split (pre @ kw') = [pre, kw', []]"
    using assms(1,3) by (rule re_keywords_split_literal)
  let ?repl = "[''first'' \<mapsto> dict_get name_parts ''first'',
                 ''middle'' \<mapsto> dict_get name_parts ''middle'',
                 ''last'' \<mapsto> dict_get name_parts ''last'']"
  have "pre \<noteq> ''first''" "pre \<noteq> ''middle''" "pre \<noteq> ''last''"
    using literal_not_keyword [OF assms(1)] by (simp_all add: keyword_alts_def)
  then have r1: "?repl pre = None" by simp
  from assms(3) have "kw' = ''first'' \<or> kw' = ''middle'' \<or> kw' = ''last''"
    by (simp add: keyword_alts_def)
  then have r2: "?repl kw' = Some (dict_get name_parts kw')"
    by (elim disjE) simp_all
  have r3: "?repl [] = None" by simp
  have p: "process_format cs ?fmt name_parts =
       (let result = case_handling cs ?fmt (pre @ dict_get name_parts kw')
        in if result \<noteq> [] \<and> \<not> str_isspace result then Some result else None)"
    unfolding process_format_def b s Let_def
    by (simp only: list.map r1 r2 r3 option.case concat.simps append_Nil2)
  have n: "re_numeric_match ?fmt = None"
    using assms(1,2,4,5) by (rule re_numeric_match_bracket_end)
  have a: "apply_format cs ?fmt name_parts =
       (let result = case_handling cs ?fmt (pre @ dict_get name_parts kw')
        in if result \<noteq> [] \<and> \<not> str_isspace result then [result] else [])"
    unfolding apply_format_def n p by (simp add: Let_def)
  from b s a show ?thesis by blast
qed

text \<open>
  For the name \<^verbatim>\<open>lastman smith\<close> the pattern \<^verbatim>\<open>first[4]\<close> evaluates to \<^verbatim>\<open>smith\<close>, with
  case sensitivity on or off, and \<^verbatim>\<open>x.first[4]\<close> to \<^verbatim>\<open>x.smith\<close>, by way of \<^verbatim>\<open>x.last\<close>.
\<close>

theorem keyword_pass_rescans_witness:
  "apply_format True ''x.first[4]'' (parse_name ''lastman smith'') = [''x.smith'']
   \<and> apply_format True ''first[4]'' (parse_name ''lastman smith'') = [''smith'']
   \<and> apply_format False ''first[4]'' (parse_name ''lastman smith'') = [''smith'']
   \<and> re_bracket_sub (replace_with_length (parse_name ''lastman smith'')) ''x.first[4]'' = ''x.last''"
proof -
  let ?parts = "parse_name ''lastman smith''"
  have p: "\<forall>c \<in> set ''x.''. c \<notin> set ''fml''" "\<forall>c \<in> set ''''. c \<notin> set ''fml''" by simp_all
  have k: "''first'' \<in> set keyword_alts" "''last'' \<in> set keyword_alts"
    by (simp_all add: keyword_alts_def)
  have d: "''4'' \<noteq> []" "list_all is_digit ''4''" by (simp_all add: is_digit_def digits_def)
  have t: "take (int_of_digits ''4'') (dict_get ?parts ''first'') = ''last''" by code_simp
  have c1: "(let result = case_handling True (''x.'' @ ''first'' @ ''['' @ ''4'' @ '']'')
                       (''x.'' @ dict_get ?parts ''last'')
        in if result \<noteq> [] \<and> \<not> str_isspace result then [result] else []) = [''x.smith'']"
    by code_simp
  have c2: "(let result = case_handling True ([] @ ''first'' @ ''['' @ ''4'' @ '']'')
                       ([] @ dict_get ?parts ''last'')
        in if result \<noteq> [] \<and> \<not> str_isspace result then [result] else []) = [''smith'']"
    by code_simp
  have c3: "(let result = case_handling False ([] @ ''first'' @ ''['' @ ''4'' @ '']'')
                       ([] @ dict_get ?parts ''last'')
        in if result \<noteq> [] \<and> \<not> str_isspace result then [result] else []) = [''smith'']"
    by code_simp
  note g1 = keyword_pass_rescans_bracket_values [OF p(1) k(1) k(2) d t, of True]
  note g2 = keyword_pass_rescans_bracket_values [OF p(2) k(1) k(2) d t, of True]
  note g3 = keyword_pass_rescans_bracket_values [OF p(2) k(1) k(2) d t, of False]
  have a1: "apply_format True (''x.'' @ ''first'' @ ''['' @ ''4'' @ '']'') ?parts = [''x.smith'']"
    using g1 unfolding c1 by blast
  have a2: "apply_format True ([] @ ''first'' @ ''['' @ ''4'' @ '']'') ?parts = [''smith'']"
    using g2 unfolding c2 by blast
  have a3: "apply_format False ([] @ ''first'' @ ''['' @ ''4'' @ '']'') ?parts = [''smith'']"
    using g3 unfolding c3 by blast
  have b1: "re_bracket_sub (replace_with_length ?parts) (''x.'' @ ''first'' @ ''['' @ ''4'' @ '']'')
      = ''x.'' @ ''last''"
    using g1 by blast
  from a1 a2 a3 b1 show ?thesis by simp
qed

end
